theory Spec2Isabelle
  imports Main "HOL-Library.Char_ord" "HOL-Library.Word"
begin

section \<open>Data model\<close>

text \<open>
  A C string (\<open>char*\<close>) is modelled as a \<open>string option\<close>: \<open>None\<close> is the null pointer,
  \<open>Some s\<close> a pointer to the characters \<open>s\<close>, none of them NUL, that precede the
  terminating NUL. So \<open>p[0] == '\0'\<close> reads \<open>s = []\<close>, and \<open>strcmp(p, q) == 0\<close> on two
  non-null pointers is equality of the character lists.
\<close>

type_synonym cstring = "string option"

text \<open>
  \<open>Item\<close> (Item.h) carries the fields of \<open>ITEM1\<close>: the identifier \<open>pID\<close>, the number
  \<open>Code\<close> (an \<open>unsigned long\<close> that the container never computes with, here a \<open>nat\<close>)
  and the time stamp \<open>pTime\<close>. Its copy constructor duplicates both strings, so a copy
  is the same value. The link field \<open>pNext\<close> is null in every constructed item and is
  left out.
\<close>

record Item =
  pID :: cstring
  Code :: nat
  pTime :: cstring

definition GetID :: "Item \<Rightarrow> cstring" where
  "GetID item = pID item"

text \<open>The three \<open>std::runtime_error\<close> messages thrown by the container.\<close>

datatype error = Invalid_ID | Item_already_exists | Item_not_found

section \<open>Identifier parser\<close>

definition FIRST_VALID_LETTER :: char where
  "FIRST_VALID_LETTER = CHR ''A''"

definition LAST_VALID_LETTER :: char where
  "LAST_VALID_LETTER = CHR ''Z''"

definition WORD_SEPARATOR :: char where
  "WORD_SEPARATOR = CHR '' ''"

record ParsedItemIdentifier =
  firstWordInitial :: char
  secondWordIndex :: nat

text \<open>
  \<open>std::strchr\<close>: the suffix that starts at the first occurrence of the character, or
  \<open>None\<close> (the null pointer) when the character does not occur.
\<close>

fun strchr :: "string \<Rightarrow> char \<Rightarrow> string option" where
  "strchr [] c = None"
| "strchr (x # xs) c = (if x = c then Some (x # xs) else strchr xs c)"

text \<open>
  \<open>tryParseItemIdentifier\<close> returns \<open>false\<close> (here \<open>None\<close>) or fills the result (here
  \<open>Some\<close>). Characters are compared by their codes; the letters lie below 128, where
  signed and unsigned \<open>char\<close> agree. \<open>spacePosition[1]\<close> is the head of the tail of the
  suffix found by \<open>strchr\<close>, and it is NUL exactly when that tail is empty.
\<close>

definition tryParseItemIdentifier :: "cstring \<Rightarrow> ParsedItemIdentifier option" where
  "tryParseItemIdentifier itemIdentifier =
     (case itemIdentifier of
        None \<Rightarrow> None
      | Some [] \<Rightarrow> None
      | Some (firstInitial # rest) \<Rightarrow>
          if firstInitial < FIRST_VALID_LETTER \<or> firstInitial > LAST_VALID_LETTER
          then None
          else (case strchr (firstInitial # rest) WORD_SEPARATOR of
                  None \<Rightarrow> None
                | Some spacePosition \<Rightarrow>
                    (case tl spacePosition of
                       [] \<Rightarrow> None
                     | secondInitial # _ \<Rightarrow>
                         if secondInitial < FIRST_VALID_LETTER
                            \<or> secondInitial > LAST_VALID_LETTER
                         then None
                         else Some \<lparr> firstWordInitial = firstInitial,
                                     secondWordIndex =
                                       of_char secondInitial - of_char FIRST_VALID_LETTER \<rparr>)))"

section \<open>The container\<close>

text \<open>
  \<open>Bucket\<close> is \<open>std::array<std::forward_list<Item>, 26>\<close>: a list of 26 chains, each a
  list of items from front to back. \<open>mBuckets\<close>, the only member of \<open>DataStructure\<close>, is a
  \<open>std::map<char, Bucket>\<close>: an association list kept in ascending key order, which is the
  order a range-for loop over the map visits. Keys are compared by character code; the
  container stores keys between \<open>A\<close> and \<open>Z\<close> only, where this is the order of \<open>char\<close>
  whether it is signed or not. A bucket is indexed with the second-level key of a parsed
  identifier only, which is below 26 (\<open>tryParse_index\<close> below).
\<close>

type_synonym Bucket = "Item list list"

type_synonym DataStructure = "(char \<times> Bucket) list"

definition empty_Bucket :: Bucket where
  "empty_Bucket = replicate 26 []"

text \<open>The default-constructed container: no bucket at all.\<close>

definition empty_DataStructure :: DataStructure where
  "empty_DataStructure = []"

text \<open>\<open>mBuckets.find(key)\<close>: the bucket of the key, \<open>None\<close> for \<open>mBuckets.end()\<close>.\<close>

fun map_find :: "DataStructure \<Rightarrow> char \<Rightarrow> Bucket option" where
  "map_find [] key = None"
| "map_find ((k, bucket) # rest) key = (if k = key then Some bucket else map_find rest key)"

text \<open>Insertion of an entry under a key that is not in the map, at its place in key order.\<close>

fun map_insert :: "char \<Rightarrow> Bucket \<Rightarrow> DataStructure \<Rightarrow> DataStructure" where
  "map_insert key bucket [] = [(key, bucket)]"
| "map_insert key bucket ((k, b) # rest) =
     (if key < k then (key, bucket) # (k, b) # rest else (k, b) # map_insert key bucket rest)"

text \<open>
  \<open>mBuckets[key]\<close>: when the key is absent a value-initialised bucket (26 empty chains)
  is inserted first. The result is the map after the access and the bucket referred to.
\<close>

definition map_subscript :: "DataStructure \<Rightarrow> char \<Rightarrow> DataStructure \<times> Bucket" where
  "map_subscript mBuckets key =
     (case map_find mBuckets key of
        Some bucket \<Rightarrow> (mBuckets, bucket)
      | None \<Rightarrow> (map_insert key empty_Bucket mBuckets, empty_Bucket))"

text \<open>A write through the reference to the bucket of a key that is in the map.\<close>

fun map_store :: "char \<Rightarrow> Bucket \<Rightarrow> DataStructure \<Rightarrow> DataStructure" where
  "map_store key bucket [] = []"
| "map_store key bucket ((k, b) # rest) =
     (if k = key then (k, bucket) # rest else (k, b) # map_store key bucket rest)"

text \<open>
  \<open>GetItemsNumber\<close>: the two nested loops add the length of every chain to an \<open>int\<close>
  accumulator, here a 32-bit word whose value as an \<open>int\<close> is read by \<open>sint\<close>;
  \<open>static_cast<int>\<close> of the distance is \<open>of_nat\<close>.
\<close>

definition GetItemsNumber :: "DataStructure \<Rightarrow> 32 word" where
  "GetItemsNumber mBuckets =
     fold (\<lambda>bucketEntry totalCount.
             fold (\<lambda>itemList totalCount. totalCount + of_nat (length itemList))
                  (snd bucketEntry) totalCount)
          mBuckets 0"

text \<open>
  \<open>GetItem\<close>: the result is the found item, \<open>None\<close> for \<open>nullptr\<close>. \<open>std::find_if\<close> is
  \<open>find\<close>. The predicate \<open>strcmp(candidateItem.GetID(), itemIdentifier) == 0\<close> is only
  reached with a parsed, hence non-null, \<open>itemIdentifier\<close>; it is the equality
  of the two identifiers. (A stored item with a null identifier would make the
  \<open>strcmp\<close> undefined; no such item is ever stored, see \<open>placement\<close> below.)
\<close>

definition GetItem :: "DataStructure \<Rightarrow> cstring \<Rightarrow> Item option" where
  "GetItem mBuckets itemIdentifier =
     (case tryParseItemIdentifier itemIdentifier of
        None \<Rightarrow> None
      | Some parsedIdentifier \<Rightarrow>
          (case map_find mBuckets (firstWordInitial parsedIdentifier) of
             None \<Rightarrow> None
           | Some bucket \<Rightarrow>
               find (\<lambda>candidateItem. GetID candidateItem = itemIdentifier)
                    (bucket ! secondWordIndex parsedIdentifier)))"

text \<open>
  The two mutating operators return the exception thrown, if any, together with the
  container as the call leaves it. \<open>operator+=\<close> throws after \<open>mBuckets[...]\<close> has been
  evaluated, so on \<open>Item_already_exists\<close> the container returned is the one after that
  access.
\<close>

definition operator_plus_eq :: "DataStructure \<Rightarrow> Item \<Rightarrow> error option \<times> DataStructure" where
  "operator_plus_eq mBuckets itemToAdd =
     (case tryParseItemIdentifier (GetID itemToAdd) of
        None \<Rightarrow> (Some Invalid_ID, mBuckets)
      | Some parsedIdentifier \<Rightarrow>
          (case map_subscript mBuckets (firstWordInitial parsedIdentifier) of
             (mBuckets', bucket) \<Rightarrow>
               (let itemList = bucket ! secondWordIndex parsedIdentifier in
                if find (\<lambda>existingItem. GetID existingItem = GetID itemToAdd) itemList \<noteq> None
                then (Some Item_already_exists, mBuckets')
                else (None,
                      map_store (firstWordInitial parsedIdentifier)
                        (bucket[secondWordIndex parsedIdentifier := itemToAdd # itemList])
                        mBuckets'))))"

text \<open>
  The loop of \<open>operator-=\<close> over one chain: at the first item whose identifier matches,
  that item is erased and the loop returns (\<open>Some\<close> of the chain that is left); when the
  chain is exhausted the result is \<open>None\<close> and nothing was erased.
\<close>

fun erase_loop :: "cstring \<Rightarrow> Item list \<Rightarrow> Item list option" where
  "erase_loop itemIdentifier [] = None"
| "erase_loop itemIdentifier (currentItem # rest) =
     (if GetID currentItem = itemIdentifier then Some rest
      else map_option ((#) currentItem) (erase_loop itemIdentifier rest))"

text \<open>
  \<open>operator-=\<close>. After the erasure the source computes whether the whole bucket is empty
  and discards the answer, so nothing is modelled for it.
\<close>

definition operator_minus_eq :: "DataStructure \<Rightarrow> cstring \<Rightarrow> error option \<times> DataStructure" where
  "operator_minus_eq mBuckets itemIdentifier =
     (case tryParseItemIdentifier itemIdentifier of
        None \<Rightarrow> (Some Invalid_ID, mBuckets)
      | Some parsedIdentifier \<Rightarrow>
          (case map_find mBuckets (firstWordInitial parsedIdentifier) of
             None \<Rightarrow> (Some Item_not_found, mBuckets)
           | Some bucket \<Rightarrow>
               (case erase_loop itemIdentifier (bucket ! secondWordIndex parsedIdentifier) of
                  None \<Rightarrow> (Some Item_not_found, mBuckets)
                | Some itemList \<Rightarrow>
                    (None,
                     map_store (firstWordInitial parsedIdentifier)
                       (bucket[secondWordIndex parsedIdentifier := itemList])
                       mBuckets))))"

text \<open>
  Output. \<open>operator<<\<close> for an item (Coursework2.cpp) writes the identifier, or
  \<open>(null)\<close>; \<open>operator<<\<close> for the container writes every item followed by a line end.
  The stream is the list of the lines written so far.
\<close>

definition print_Item :: "Item \<Rightarrow> string" where
  "print_Item itemToOutput =
     (case pID itemToOutput of Some s \<Rightarrow> s | None \<Rightarrow> ''(null)'')"

definition print_DataStructure :: "string list \<Rightarrow> DataStructure \<Rightarrow> string list" where
  "print_DataStructure outputStream mBuckets =
     fold (\<lambda>bucketEntry out.
             fold (\<lambda>itemList out.
                     fold (\<lambda>currentItem out. out @ [print_Item currentItem]) itemList out)
                  (snd bucketEntry) out)
          mBuckets outputStream"

section \<open>Sequences of operations\<close>

text \<open>
  A caller applies the two mutating operators in any order; a call that throws leaves
  the container to the next call as it is at the throw.
\<close>

datatype operation = Insert Item | Remove cstring

fun apply_operation :: "operation \<Rightarrow> DataStructure \<Rightarrow> error option \<times> DataStructure" where
  "apply_operation (Insert item) ds = operator_plus_eq ds item"
| "apply_operation (Remove itemIdentifier) ds = operator_minus_eq ds itemIdentifier"

fun run :: "operation list \<Rightarrow> DataStructure \<Rightarrow> DataStructure" where
  "run [] ds = ds"
| "run (operation # rest) ds = run rest (snd (apply_operation operation ds))"

text \<open>The numbers of inserts and of removes of a run that return without an exception.\<close>

fun successful_inserts :: "operation list \<Rightarrow> DataStructure \<Rightarrow> nat" where
  "successful_inserts [] ds = 0"
| "successful_inserts (Insert item # rest) ds =
     (if fst (operator_plus_eq ds item) = None then 1 else 0)
       + successful_inserts rest (snd (operator_plus_eq ds item))"
| "successful_inserts (Remove itemIdentifier # rest) ds =
     successful_inserts rest (snd (operator_minus_eq ds itemIdentifier))"

fun successful_removes :: "operation list \<Rightarrow> DataStructure \<Rightarrow> nat" where
  "successful_removes [] ds = 0"
| "successful_removes (Insert item # rest) ds =
     successful_removes rest (snd (operator_plus_eq ds item))"
| "successful_removes (Remove itemIdentifier # rest) ds =
     (if fst (operator_minus_eq ds itemIdentifier) = None then 1 else 0)
       + successful_removes rest (snd (operator_minus_eq ds itemIdentifier))"

section \<open>Notions used to state the properties\<close>

text \<open>The 26 letters, and the position of the first space of a string (its length if none).\<close>

definition uppercase_letter :: "char \<Rightarrow> bool" where
  "uppercase_letter c \<longleftrightarrow> c \<in> set ''ABCDEFGHIJKLMNOPQRSTUVWXYZ''"

definition first_space :: "string \<Rightarrow> nat" where
  "first_space s = length (takeWhile (\<lambda>c. c \<noteq> CHR '' '') s)"

text \<open>
  The stored items in the order in which the loops of \<open>operator<<\<close> and of
  \<open>GetItemsNumber\<close> visit them, and the chain at a two-level address (empty when the
  bucket is absent).
\<close>

definition stored_items :: "DataStructure \<Rightarrow> Item list" where
  "stored_items ds = concat (map (\<lambda>bucketEntry. concat (snd bucketEntry)) ds)"

definition chain_at :: "DataStructure \<Rightarrow> char \<Rightarrow> nat \<Rightarrow> Item list" where
  "chain_at ds key i = (case map_find ds key of None \<Rightarrow> [] | Some bucket \<Rightarrow> bucket ! i)"

text \<open>
  What the types \<open>std::map\<close> and \<open>std::array<_, 26>\<close> guarantee of every container:
  strictly ascending keys and 26 chains in each bucket.
\<close>

definition well_formed :: "DataStructure \<Rightarrow> bool" where
  "well_formed ds \<longleftrightarrow>
     sorted_wrt (<) (map fst ds) \<and> (\<forall>entry \<in> set ds. length (snd entry) = 26)"

text \<open>
  Placement: every stored item lies in the chain that its own identifier parses to.
  Chain uniqueness: no chain holds two items with the same identifier.
\<close>

definition placement :: "DataStructure \<Rightarrow> bool" where
  "placement ds \<longleftrightarrow>
     (\<forall>entry \<in> set ds. \<forall>i < 26. \<forall>item \<in> set (snd entry ! i).
        tryParseItemIdentifier (pID item)
          = Some \<lparr> firstWordInitial = fst entry, secondWordIndex = i \<rparr>)"

definition chains_unique :: "DataStructure \<Rightarrow> bool" where
  "chains_unique ds \<longleftrightarrow>
     (\<forall>entry \<in> set ds. \<forall>i < 26. distinct (map pID (snd entry ! i)))"

definition invariant :: "DataStructure \<Rightarrow> bool" where
  "invariant ds \<longleftrightarrow> well_formed ds \<and> placement ds \<and> chains_unique ds"

text \<open>
  The order of two identifiers by their addresses: ascending first-level key, then
  ascending second-level key. Identifiers that do not parse are not ordered.
\<close>

definition address_le :: "cstring \<Rightarrow> cstring \<Rightarrow> bool" where
  "address_le a b =
     (case (tryParseItemIdentifier a, tryParseItemIdentifier b) of
        (Some p, Some q) \<Rightarrow>
          firstWordInitial p < firstWordInitial q
          \<or> (firstWordInitial p = firstWordInitial q \<and> secondWordIndex p \<le> secondWordIndex q)
      | _ \<Rightarrow> False)"

text \<open>The three parts of the invariant, for one entry of the map.\<close>

definition bucket_ok :: "char \<times> Bucket \<Rightarrow> bool" where
  "bucket_ok entry \<longleftrightarrow>
     length (snd entry) = 26
     \<and> (\<forall>i < 26. \<forall>item \<in> set (snd entry ! i).
          tryParseItemIdentifier (pID item)
            = Some \<lparr> firstWordInitial = fst entry, secondWordIndex = i \<rparr>)
     \<and> (\<forall>i < 26. distinct (map pID (snd entry ! i)))"

section \<open>Properties of the parser\<close>

lemma valid_letter_range:
  "(\<not> (c < FIRST_VALID_LETTER \<or> c > LAST_VALID_LETTER)) = uppercase_letter c"
proof -
  have "(CHR ''A'' \<le> c \<and> c \<le> CHR ''Z'') = (c \<in> set ''ABCDEFGHIJKLMNOPQRSTUVWXYZ'')"
  proof
    assume a: "CHR ''A'' \<le> c \<and> c \<le> CHR ''Z''"
    define n :: nat where "n = of_char c"
    from a have "n \<in> {65..<91}"
      by (simp add: less_eq_char_def n_def)
    then have "n \<in> of_char ` set ''ABCDEFGHIJKLMNOPQRSTUVWXYZ''"
      by (simp add: atLeastLessThan_nat_numeral) blast
    then show "c \<in> set ''ABCDEFGHIJKLMNOPQRSTUVWXYZ''"
      unfolding n_def by (simp only: inj_image_mem_iff [OF inj_of_char])
  next
    assume "c \<in> set ''ABCDEFGHIJKLMNOPQRSTUVWXYZ''"
    then show "CHR ''A'' \<le> c \<and> c \<le> CHR ''Z''"
      by (auto simp: less_eq_char_def)
  qed
  then show ?thesis
    by (auto simp: uppercase_letter_def FIRST_VALID_LETTER_def LAST_VALID_LETTER_def)
qed

lemma valid_letter_index:
  assumes "uppercase_letter c"
  shows "int (of_char c - of_char FIRST_VALID_LETTER) = int (of_char c) - int (of_char (CHR ''A''))"
    and "of_char c - of_char FIRST_VALID_LETTER \<le> (25::nat)"
  using assms unfolding valid_letter_range [symmetric]
  by (simp_all add: FIRST_VALID_LETTER_def LAST_VALID_LETTER_def less_char_def) arith

lemma strchr_dropWhile:
  "strchr s c = (if c \<in> set s then Some (dropWhile (\<lambda>x. x \<noteq> c) s) else None)"
  by (induction s) auto

lemma tl_dropWhile:
  "tl (dropWhile P s) = drop (Suc (length (takeWhile P s))) s"
  by (induction s) auto

lemma tryParse_Some_unfold:
  "tryParseItemIdentifier (Some s) =
     (if s = [] \<or> \<not> uppercase_letter (s ! 0) \<or> CHR '' '' \<notin> set s
         \<or> Suc (first_space s) = length s \<or> \<not> uppercase_letter (s ! Suc (first_space s))
      then None
      else Some \<lparr> firstWordInitial = s ! 0,
                  secondWordIndex = of_char (s ! Suc (first_space s)) - of_char FIRST_VALID_LETTER \<rparr>)"
proof (cases s)
  case Nil
  then show ?thesis by (simp add: tryParseItemIdentifier_def)
next
  case (Cons a rest)
  have le: "CHR '' '' \<in> set s \<Longrightarrow> first_space s < length s"
    unfolding first_space_def by (induction s) auto
  have dr: "tl (dropWhile (\<lambda>x. x \<noteq> CHR '' '') s) = drop (Suc (first_space s)) s"
    by (simp add: tl_dropWhile first_space_def)
  show ?thesis
  proof (cases "Suc (first_space s) < length s")
    case True
    then obtain d ds where d: "drop (Suc (first_space s)) s = d # ds"
      by (cases "drop (Suc (first_space s)) s") auto
    then have "d = s ! Suc (first_space s)"
      using True by (metis nth_via_drop)
    with d dr True Cons show ?thesis
      using valid_letter_range [of a] valid_letter_range [of d]
      by (auto simp: tryParseItemIdentifier_def strchr_dropWhile WORD_SEPARATOR_def)
  next
    case False
    then have "drop (Suc (first_space s)) s = []" by simp
    with dr False Cons le show ?thesis
      using valid_letter_range [of a]
      by (auto simp: tryParseItemIdentifier_def strchr_dropWhile WORD_SEPARATOR_def)
  qed
qed

lemmas parser_defs =
  tryParseItemIdentifier_def FIRST_VALID_LETTER_def LAST_VALID_LETTER_def WORD_SEPARATOR_def
  less_char_def

text \<open>
  Claim C1. The parser fails exactly on the null pointer and on the strings that are
  empty, or do not start with one of the letters A to Z, or hold no space, or end with
  their first space, or have no letter A to Z right after their first space. On every
  other string it succeeds with the first character as first-level key and with the
  character after the first space, minus \<open>A\<close>, as second-level key, a number from 0 to
  25. The six boundary cases of the specification are instances.
\<close>

theorem tryParseItemIdentifier_characterisation:
  "tryParseItemIdentifier None = None
   \<and> (tryParseItemIdentifier (Some s) = None \<longleftrightarrow>
        s = [] \<or> \<not> uppercase_letter (s ! 0) \<or> CHR '' '' \<notin> set s
        \<or> Suc (first_space s) = length s \<or> \<not> uppercase_letter (s ! Suc (first_space s)))
   \<and> (\<forall>parsed. tryParseItemIdentifier (Some s) = Some parsed \<longrightarrow>
        firstWordInitial parsed = s ! 0
        \<and> int (secondWordIndex parsed)
            = int (of_char (s ! Suc (first_space s))) - int (of_char (CHR ''A''))
        \<and> secondWordIndex parsed \<le> 25)
   \<and> tryParseItemIdentifier (Some ''Cafe Noir'')
        = Some \<lparr> firstWordInitial = CHR ''C'', secondWordIndex = 13 \<rparr>
   \<and> tryParseItemIdentifier (Some ''cafe Noir'') = None
   \<and> tryParseItemIdentifier (Some ''Cafe noir'') = None
   \<and> tryParseItemIdentifier (Some ''Cafe'') = None
   \<and> tryParseItemIdentifier (Some ''Cafe '') = None"
proof -
  have null: "tryParseItemIdentifier None = None"
    by (simp add: tryParseItemIdentifier_def)
  have fails: "tryParseItemIdentifier (Some s) = None \<longleftrightarrow>
        s = [] \<or> \<not> uppercase_letter (s ! 0) \<or> CHR '' '' \<notin> set s
        \<or> Suc (first_space s) = length s \<or> \<not> uppercase_letter (s ! Suc (first_space s))"
    by (simp add: tryParse_Some_unfold)
  have succeeds: "\<forall>parsed. tryParseItemIdentifier (Some s) = Some parsed \<longrightarrow>
        firstWordInitial parsed = s ! 0
        \<and> int (secondWordIndex parsed)
            = int (of_char (s ! Suc (first_space s))) - int (of_char (CHR ''A''))
        \<and> secondWordIndex parsed \<le> 25"
    using valid_letter_index [of "s ! Suc (first_space s)"]
    by (auto simp: tryParse_Some_unfold split: if_splits)
  have e1: "tryParseItemIdentifier (Some ''Cafe Noir'')
        = Some \<lparr> firstWordInitial = CHR ''C'', secondWordIndex = 13 \<rparr>"
    by (simp add: parser_defs)
  have e2: "tryParseItemIdentifier (Some ''cafe Noir'') = None"
    by (simp add: parser_defs)
  have e3: "tryParseItemIdentifier (Some ''Cafe noir'') = None"
    by (simp add: parser_defs)
  have e4: "tryParseItemIdentifier (Some ''Cafe'') = None"
    by (simp add: parser_defs)
  have e5: "tryParseItemIdentifier (Some ''Cafe '') = None"
    by (simp add: parser_defs)
  from null fails succeeds e1 e2 e3 e4 e5 show ?thesis
    by blast
qed

theorem tryParseItemIdentifier_characterisation_witness:
  "\<not> (''Tiffany Blue'' = [] \<or> \<not> uppercase_letter (''Tiffany Blue'' ! 0)
      \<or> CHR '' '' \<notin> set ''Tiffany Blue''
      \<or> Suc (first_space ''Tiffany Blue'') = length ''Tiffany Blue''
      \<or> \<not> uppercase_letter (''Tiffany Blue'' ! Suc (first_space ''Tiffany Blue'')))
   \<and> tryParseItemIdentifier (Some ''Tiffany Blue'')
       = Some \<lparr> firstWordInitial = CHR ''T'', secondWordIndex = 1 \<rparr>
   \<and> firstWordInitial \<lparr> firstWordInitial = CHR ''T'', secondWordIndex = 1 \<rparr> = ''Tiffany Blue'' ! 0
   \<and> secondWordIndex \<lparr> firstWordInitial = CHR ''T'', secondWordIndex = 1 \<rparr> \<le> 25"
  using tryParseItemIdentifier_characterisation [of "''Tiffany Blue''"]
  by (simp add: uppercase_letter_def first_space_def parser_defs)

section \<open>Facts about the container\<close>

subsection \<open>The map operations\<close>

lemma map_find_map_of: "map_find m key = map_of m key"
  by (induction m) auto

lemma map_find_None_iff: "map_find m key = None \<longleftrightarrow> key \<notin> fst ` set m"
  by (simp add: map_find_map_of map_of_eq_None_iff)

lemma map_find_Some_mem: "map_find m key = Some bucket \<Longrightarrow> (key, bucket) \<in> set m"
  by (simp add: map_find_map_of map_of_SomeD)

lemma sorted_keys_distinct: "sorted_wrt (<) (map fst (m :: DataStructure)) \<Longrightarrow> distinct (map fst m)"
  by (induction m) auto

lemma map_find_sorted:
  "sorted_wrt (<) (map fst m) \<Longrightarrow> (key, bucket) \<in> set m \<Longrightarrow> map_find m key = Some bucket"
  by (simp add: map_find_map_of sorted_keys_distinct)

lemma set_map_insert: "set (map_insert key bucket m) = insert (key, bucket) (set m)"
  by (induction m) (auto split: if_splits)

lemma map_find_map_insert:
  "map_find m key = None \<Longrightarrow>
   map_find (map_insert key bucket m) k = (if k = key then Some bucket else map_find m k)"
  by (induction m) (auto split: if_splits)

lemma sorted_map_insert:
  "sorted_wrt (<) (map fst m) \<Longrightarrow> key \<notin> fst ` set m \<Longrightarrow>
   sorted_wrt (<) (map fst (map_insert key bucket m))"
proof (induction m)
  case Nil
  then show ?case by simp
next
  case (Cons entry m)
  obtain k b where entry: "entry = (k, b)" by (cases entry)
  show ?case
  proof (cases "key < k")
    case True
    with Cons.prems entry show ?thesis by (auto intro: less_trans)
  next
    case False
    with Cons.prems entry have "k < key" by auto
    with Cons entry False show ?thesis by (auto simp: set_map_insert)
  qed
qed

lemma keys_map_store: "map fst (map_store key bucket m) = map fst m"
  by (induction m) auto

lemma set_map_store: "set (map_store key bucket m) \<subseteq> insert (key, bucket) (set m)"
  by (induction m) (auto split: if_splits)

lemma map_find_map_store:
  "map_find (map_store key bucket m) k =
     (if k = key \<and> map_find m key \<noteq> None then Some bucket else map_find m k)"
  by (induction m) (auto split: if_splits)

subsection \<open>Chains\<close>

lemma find_None_pID:
  "find (\<lambda>x. pID x = ident) chain = None \<longleftrightarrow> ident \<notin> pID ` set chain"
  by (auto simp: find_None_iff)

lemma find_Some_pID:
  "(\<exists>y. find (\<lambda>x. pID x = ident) chain = Some y) \<longleftrightarrow> ident \<in> pID ` set chain"
  using find_None_pID [of ident chain] by auto

lemma find_split:
  "P x \<Longrightarrow> \<forall>y \<in> set front. \<not> P y \<Longrightarrow> find P (front @ x # rear) = Some x"
  by (induction front) auto

lemma find_SomeD:
  "find P chain = Some x \<Longrightarrow>
     \<exists>front rear. chain = front @ x # rear \<and> P x \<and> (\<forall>y \<in> set front. \<not> P y)"
proof (induction chain)
  case Nil
  then show ?case by simp
next
  case (Cons a chain)
  show ?case
  proof (cases "P a")
    case True
    with Cons.prems have "a = x" by simp
    with True show ?thesis
      by (intro exI [of _ "[]"] exI [of _ chain]) simp
  next
    case False
    with Cons obtain front rear where
      "chain = front @ x # rear" "P x" "\<forall>y \<in> set front. \<not> P y"
      by auto
    with False show ?thesis
      by (intro exI [of _ "a # front"] exI [of _ rear]) simp
  qed
qed

lemma erase_loop_None:
  "erase_loop ident chain = None \<longleftrightarrow> ident \<notin> pID ` set chain"
  by (induction chain) (auto simp: GetID_def)

lemma erase_loop_SomeD:
  "erase_loop ident chain = Some chain' \<Longrightarrow>
     \<exists>front x rear. chain = front @ x # rear \<and> chain' = front @ rear \<and> pID x = ident
        \<and> ident \<notin> pID ` set front"
proof (induction chain arbitrary: chain')
  case Nil
  then show ?case by simp
next
  case (Cons a chain)
  show ?case
  proof (cases "pID a = ident")
    case True
    with Cons.prems have "chain' = chain" by (simp add: GetID_def)
    with True show ?thesis
      by (intro exI [of _ "[]"] exI [of _ a] exI [of _ chain]) simp
  next
    case False
    with Cons.prems obtain rest where rest: "erase_loop ident chain = Some rest" "chain' = a # rest"
      by (auto simp: GetID_def)
    from Cons.IH [OF rest(1)] obtain front x rear where
      "chain = front @ x # rear" "rest = front @ rear" "pID x = ident" "ident \<notin> pID ` set front"
      by auto
    with False rest(2) show ?thesis
      by (intro exI [of _ "a # front"] exI [of _ x] exI [of _ rear]) auto
  qed
qed

lemma concat_list_update:
  "i < length bucket \<Longrightarrow>
   concat (bucket[i := chain]) = concat (take i bucket) @ chain @ concat (drop (Suc i) bucket)"
  by (simp add: upd_conv_take_nth_drop)

lemma concat_nth_split:
  "i < length bucket \<Longrightarrow>
   concat bucket = concat (take i bucket) @ bucket ! i @ concat (drop (Suc i) bucket)"
  by (metis concat_list_update list_update_id)

subsection \<open>Counting\<close>

lemma fold_add_lengths:
  "fold (\<lambda>itemList totalCount. totalCount + of_nat (length itemList)) bucket (n :: 32 word)
     = n + of_nat (length (concat bucket))"
  by (induction bucket arbitrary: n) (simp_all add: add.assoc)

lemma GetItemsNumber_fold:
  "fold (\<lambda>bucketEntry totalCount.
             fold (\<lambda>itemList totalCount. totalCount + of_nat (length itemList))
                  (snd bucketEntry) totalCount) ds (n :: 32 word)
    = n + of_nat (length (stored_items ds))"
  by (induction ds arbitrary: n) (simp_all add: stored_items_def fold_add_lengths add.assoc)

lemma GetItemsNumber_stored: "GetItemsNumber ds = of_nat (length (stored_items ds))"
  by (simp add: GetItemsNumber_def GetItemsNumber_fold)

lemma sint_GetItemsNumber:
  "length (stored_items ds) < 2 ^ 31 \<Longrightarrow> sint (GetItemsNumber ds) = int (length (stored_items ds))"
proof -
  assume "length (stored_items ds) < 2 ^ 31"
  then have "int (length (stored_items ds)) < 2 ^ 31"
    by (metis of_nat_less_numeral_power_cancel_iff)
  then have "signed_take_bit 31 (int (length (stored_items ds))) = int (length (stored_items ds))"
    by (intro signed_take_bit_int_eq_self) simp_all
  then show ?thesis
    by (simp add: GetItemsNumber_stored signed_of_nat)
qed

lemma print_fold_chain:
  "fold (\<lambda>currentItem out. out @ [print_Item currentItem]) itemList out
     = out @ map print_Item itemList"
  by (induction itemList arbitrary: out) simp_all

lemma print_fold_bucket:
  "fold (\<lambda>itemList out. fold (\<lambda>currentItem out. out @ [print_Item currentItem]) itemList out)
        bucket out
     = out @ map print_Item (concat bucket)"
  by (induction bucket arbitrary: out) (simp_all add: print_fold_chain)

lemma print_DataStructure_stored:
  "print_DataStructure out ds = out @ map print_Item (stored_items ds)"
  unfolding print_DataStructure_def stored_items_def
  by (induction ds arbitrary: out) (simp_all add: print_fold_chain print_fold_bucket)

subsection \<open>The two mutating operators, case by case\<close>

lemma tryParse_index:
  "tryParseItemIdentifier ident = Some parsed \<Longrightarrow> secondWordIndex parsed < 26"
proof (cases ident)
  case None
  assume "tryParseItemIdentifier ident = Some parsed"
  with None show ?thesis by (simp add: tryParseItemIdentifier_def)
next
  case (Some s)
  assume "tryParseItemIdentifier ident = Some parsed"
  with Some valid_letter_index(2) [of "s ! Suc (first_space s)"] show ?thesis
    by (auto simp: tryParse_Some_unfold split: if_splits)
qed

lemma map_store_map_insert:
  "map_find m key = None \<Longrightarrow>
   map_store key bucket' (map_insert key bucket m) = map_insert key bucket' m"
  by (induction m) (auto split: if_splits)

lemma operator_plus_eq_cases [case_names invalid duplicate fresh_bucket added]:
  obtains
    (invalid) "tryParseItemIdentifier (pID item) = None"
      "operator_plus_eq ds item = (Some Invalid_ID, ds)"
  | (duplicate) parsed bucket where
      "tryParseItemIdentifier (pID item) = Some parsed"
      "map_find ds (firstWordInitial parsed) = Some bucket"
      "pID item \<in> pID ` set (bucket ! secondWordIndex parsed)"
      "operator_plus_eq ds item = (Some Item_already_exists, ds)"
  | (fresh_bucket) parsed where
      "tryParseItemIdentifier (pID item) = Some parsed"
      "map_find ds (firstWordInitial parsed) = None"
      "operator_plus_eq ds item =
         (None, map_insert (firstWordInitial parsed)
                  (empty_Bucket[secondWordIndex parsed := [item]]) ds)"
  | (added) parsed bucket where
      "tryParseItemIdentifier (pID item) = Some parsed"
      "map_find ds (firstWordInitial parsed) = Some bucket"
      "pID item \<notin> pID ` set (bucket ! secondWordIndex parsed)"
      "operator_plus_eq ds item =
         (None, map_store (firstWordInitial parsed)
                  (bucket[secondWordIndex parsed := item # bucket ! secondWordIndex parsed]) ds)"
proof (cases "tryParseItemIdentifier (pID item)")
  case None
  then show ?thesis
    by (intro invalid) (simp_all add: operator_plus_eq_def GetID_def)
next
  case (Some parsed)
  note index = tryParse_index [OF Some]
  show ?thesis
  proof (cases "map_find ds (firstWordInitial parsed)")
    case None
    have "empty_Bucket ! secondWordIndex parsed = []"
      using index by (simp add: empty_Bucket_def)
    with Some None show ?thesis
      by (intro fresh_bucket [of parsed])
         (simp_all add: operator_plus_eq_def GetID_def map_subscript_def map_store_map_insert)
  next
    case bucket: (Some bucket)
    show ?thesis
    proof (cases "pID item \<in> pID ` set (bucket ! secondWordIndex parsed)")
      case True
      with Some bucket show ?thesis
        by (intro duplicate [of parsed bucket])
           (simp_all add: operator_plus_eq_def map_subscript_def find_None_pID find_Some_pID GetID_def)
    next
      case False
      with Some bucket show ?thesis
        by (intro added [of parsed bucket])
           (simp_all add: operator_plus_eq_def map_subscript_def find_None_pID find_Some_pID GetID_def)
    qed
  qed
qed

lemma operator_minus_eq_cases [case_names invalid no_bucket no_item removed]:
  obtains
    (invalid) "tryParseItemIdentifier ident = None"
      "operator_minus_eq ds ident = (Some Invalid_ID, ds)"
  | (no_bucket) parsed where
      "tryParseItemIdentifier ident = Some parsed"
      "map_find ds (firstWordInitial parsed) = None"
      "operator_minus_eq ds ident = (Some Item_not_found, ds)"
  | (no_item) parsed bucket where
      "tryParseItemIdentifier ident = Some parsed"
      "map_find ds (firstWordInitial parsed) = Some bucket"
      "ident \<notin> pID ` set (bucket ! secondWordIndex parsed)"
      "operator_minus_eq ds ident = (Some Item_not_found, ds)"
  | (removed) parsed bucket front x rear where
      "tryParseItemIdentifier ident = Some parsed"
      "map_find ds (firstWordInitial parsed) = Some bucket"
      "bucket ! secondWordIndex parsed = front @ x # rear"
      "pID x = ident" "ident \<notin> pID ` set front"
      "operator_minus_eq ds ident =
         (None, map_store (firstWordInitial parsed)
                  (bucket[secondWordIndex parsed := front @ rear]) ds)"
proof (cases "tryParseItemIdentifier ident")
  case None
  then show ?thesis
    by (intro invalid) (simp_all add: operator_minus_eq_def)
next
  case (Some parsed)
  show ?thesis
  proof (cases "map_find ds (firstWordInitial parsed)")
    case None
    with Some show ?thesis
      by (intro no_bucket [of parsed]) (simp_all add: operator_minus_eq_def)
  next
    case bucket: (Some bucket)
    show ?thesis
    proof (cases "erase_loop ident (bucket ! secondWordIndex parsed)")
      case None
      then have "ident \<notin> pID ` set (bucket ! secondWordIndex parsed)"
        by (simp add: erase_loop_None)
      with Some bucket None show ?thesis
        by (intro no_item [of parsed bucket]) (simp_all add: operator_minus_eq_def)
    next
      case erased: (Some itemList)
      from erase_loop_SomeD [OF erased] obtain front x rear where
        "bucket ! secondWordIndex parsed = front @ x # rear" "itemList = front @ rear"
        "pID x = ident" "ident \<notin> pID ` set front"
        by blast
      with Some bucket erased show ?thesis
        by (intro removed [of parsed bucket front x rear]) (simp_all add: operator_minus_eq_def)
    qed
  qed
qed

subsection \<open>The invariant\<close>

lemma invariant_bucket_ok:
  "invariant ds \<longleftrightarrow> sorted_wrt (<) (map fst ds) \<and> (\<forall>entry \<in> set ds. bucket_ok entry)"
  by (auto simp: invariant_def well_formed_def placement_def chains_unique_def bucket_ok_def)

lemma invariant_empty: "invariant empty_DataStructure"
  by (simp add: invariant_bucket_ok empty_DataStructure_def)

lemma invariant_map_store:
  assumes "invariant ds" and "bucket_ok (key, bucket)"
  shows "invariant (map_store key bucket ds)"
  using assms set_map_store [of key bucket ds]
  by (auto simp: invariant_bucket_ok keys_map_store)

lemma invariant_map_insert:
  assumes "invariant ds" and "bucket_ok (key, bucket)" and "map_find ds key = None"
  shows "invariant (map_insert key bucket ds)"
  using assms
  by (auto simp: invariant_bucket_ok set_map_insert sorted_map_insert map_find_None_iff)

lemma invariant_map_find:
  "invariant ds \<Longrightarrow> map_find ds key = Some bucket \<Longrightarrow> bucket_ok (key, bucket)"
  by (auto simp: invariant_bucket_ok dest: map_find_Some_mem)

lemma bucket_ok_empty_update:
  assumes "tryParseItemIdentifier (pID item) = Some parsed"
  shows "bucket_ok (firstWordInitial parsed, empty_Bucket[secondWordIndex parsed := [item]])"
  using assms tryParse_index [OF assms]
  by (auto simp: bucket_ok_def empty_Bucket_def nth_list_update)

lemma bucket_ok_push_front:
  assumes "bucket_ok (firstWordInitial parsed, bucket)"
    and "tryParseItemIdentifier (pID item) = Some parsed"
    and "pID item \<notin> pID ` set (bucket ! secondWordIndex parsed)"
  shows "bucket_ok (firstWordInitial parsed,
                    bucket[secondWordIndex parsed := item # bucket ! secondWordIndex parsed])"
  using assms tryParse_index [OF assms(2)]
  by (auto simp: bucket_ok_def nth_list_update)

lemma bucket_ok_erase:
  assumes "bucket_ok (key, bucket)" and "bucket ! i = front @ x # rear"
  shows "bucket_ok (key, bucket[i := front @ rear])"
proof (cases "i < 26")
  case True
  with assms(1) have "\<forall>item \<in> set (bucket ! i).
       tryParseItemIdentifier (pID item) = Some \<lparr> firstWordInitial = key, secondWordIndex = i \<rparr>"
    and "distinct (map pID (bucket ! i))"
    by (simp_all add: bucket_ok_def)
  with assms(2) have "\<forall>item \<in> set (front @ rear).
       tryParseItemIdentifier (pID item) = Some \<lparr> firstWordInitial = key, secondWordIndex = i \<rparr>"
    and "distinct (map pID (front @ rear))"
    by auto
  moreover from assms have "length bucket = 26"
    and "\<forall>j < 26. \<forall>item \<in> set (bucket ! j).
          tryParseItemIdentifier (pID item) = Some \<lparr> firstWordInitial = key, secondWordIndex = j \<rparr>"
    and "\<forall>j < 26. distinct (map pID (bucket ! j))"
    by (simp_all add: bucket_ok_def)
  ultimately show ?thesis
    using True unfolding bucket_ok_def by (simp add: nth_list_update)
next
  case False
  with assms show ?thesis by (simp add: bucket_ok_def)
qed

lemma invariant_operator_plus_eq:
  assumes "invariant ds"
  shows "invariant (snd (operator_plus_eq ds item))"
proof (cases rule: operator_plus_eq_cases [where item = item and ds = ds])
  case invalid
  with assms show ?thesis by simp
next
  case (duplicate parsed bucket)
  with assms show ?thesis by simp
next
  case (fresh_bucket parsed)
  with assms bucket_ok_empty_update [of item parsed] show ?thesis
    by (simp add: invariant_map_insert)
next
  case (added parsed bucket)
  with assms invariant_map_find [of ds "firstWordInitial parsed" bucket]
  have "bucket_ok (firstWordInitial parsed,
                    bucket[secondWordIndex parsed := item # bucket ! secondWordIndex parsed])"
    by (intro bucket_ok_push_front) simp_all
  with assms added show ?thesis
    by (simp add: invariant_map_store)
qed

lemma invariant_operator_minus_eq:
  assumes "invariant ds"
  shows "invariant (snd (operator_minus_eq ds ident))"
proof (cases rule: operator_minus_eq_cases [where ident = ident and ds = ds])
  case (removed parsed bucket front x rear)
  with assms invariant_map_find [of ds "firstWordInitial parsed" bucket]
  have "bucket_ok (firstWordInitial parsed, bucket[secondWordIndex parsed := front @ rear])"
    by (intro bucket_ok_erase [of _ _ _ _ x]) simp_all
  with assms removed show ?thesis
    by (simp add: invariant_map_store)
qed (use assms in simp_all)

lemma invariant_apply_operation:
  "invariant ds \<Longrightarrow> invariant (snd (apply_operation operation ds))"
  by (cases operation) (simp_all add: invariant_operator_plus_eq invariant_operator_minus_eq)

lemma invariant_run_from: "invariant ds \<Longrightarrow> invariant (run ops ds)"
  by (induction ops arbitrary: ds) (simp_all add: invariant_apply_operation)

lemma invariant_run: "invariant (run ops empty_DataStructure)"
  by (simp add: invariant_run_from invariant_empty)

subsection \<open>The stored items of a container that satisfies the invariant\<close>

lemma sorted_wrt_concat_nth:
  assumes "\<And>ys. ys \<in> set xss \<Longrightarrow> sorted_wrt R ys"
    and "\<And>i j a b. i < j \<Longrightarrow> j < length xss \<Longrightarrow> a \<in> set (xss ! i) \<Longrightarrow> b \<in> set (xss ! j) \<Longrightarrow> R a b"
  shows "sorted_wrt R (concat xss)"
  using assms
proof (induction xss)
  case Nil
  then show ?case by simp
next
  case (Cons ys xss)
  have "sorted_wrt R (concat xss)"
  proof (rule Cons.IH)
    fix zs assume "zs \<in> set xss"
    then show "sorted_wrt R zs" using Cons.prems(1) by simp
  next
    fix i j a b
    assume "i < j" "j < length xss" "a \<in> set (xss ! i)" "b \<in> set (xss ! j)"
    then show "R a b"
      using Cons.prems(2) [of "Suc i" "Suc j" a b] by simp
  qed
  moreover have "R a b" if "a \<in> set ys" "b \<in> set (concat xss)" for a b
  proof -
    from that(2) obtain zs where "zs \<in> set xss" "b \<in> set zs"
      by auto
    then obtain j where "j < length xss" "b \<in> set (xss ! j)"
      by (auto simp: in_set_conv_nth)
    with that(1) show ?thesis
      using Cons.prems(2) [of 0 "Suc j" a b] by simp
  qed
  moreover have "sorted_wrt R ys"
    using Cons.prems(1) by simp
  ultimately show ?case
    by (simp add: sorted_wrt_append)
qed

lemma distinct_map_sorted_wrt:
  "distinct (map f xs) = sorted_wrt (\<lambda>a b. f a \<noteq> f b) xs"
  by (induction xs) auto

lemma stored_items_mem:
  assumes "invariant ds"
  shows "item \<in> set (stored_items ds) \<longleftrightarrow> (\<exists>key i. i < 26 \<and> item \<in> set (chain_at ds key i))"
proof
  assume "item \<in> set (stored_items ds)"
  then obtain entry chain where e: "entry \<in> set ds" "chain \<in> set (snd entry)" "item \<in> set chain"
    by (auto simp: stored_items_def)
  with assms have "length (snd entry) = 26"
    by (simp add: invariant_bucket_ok bucket_ok_def)
  with e(2) obtain i where "i < 26" "chain = snd entry ! i"
    by (auto simp: in_set_conv_nth)
  moreover from assms e(1) have "map_find ds (fst entry) = Some (snd entry)"
    by (intro map_find_sorted) (simp_all add: invariant_bucket_ok)
  ultimately show "\<exists>key i. i < 26 \<and> item \<in> set (chain_at ds key i)"
    using e(3) by (intro exI [of _ "fst entry"] exI [of _ i]) (simp add: chain_at_def)
next
  assume "\<exists>key i. i < 26 \<and> item \<in> set (chain_at ds key i)"
  then obtain key i where "i < 26" "item \<in> set (chain_at ds key i)"
    by auto
  then obtain bucket where *: "i < 26" "map_find ds key = Some bucket" "item \<in> set (bucket ! i)"
    by (cases "map_find ds key") (auto simp: chain_at_def)
  with assms have "length bucket = 26"
    using invariant_map_find [of ds key bucket] by (simp add: bucket_ok_def)
  with * have "bucket ! i \<in> set bucket" by simp
  with * show "item \<in> set (stored_items ds)"
    using map_find_Some_mem [of ds key bucket] by (force simp: stored_items_def)
qed

lemma chain_at_placement:
  assumes "invariant ds" and "i < 26" and "item \<in> set (chain_at ds key i)"
  shows "tryParseItemIdentifier (pID item) = Some \<lparr> firstWordInitial = key, secondWordIndex = i \<rparr>"
proof -
  from assms(3) obtain bucket where "map_find ds key = Some bucket" "item \<in> set (bucket ! i)"
    by (cases "map_find ds key") (auto simp: chain_at_def)
  with assms(1,2) show ?thesis
    using invariant_map_find [of ds key bucket] by (simp add: bucket_ok_def)
qed

lemma chain_at_distinct:
  assumes "invariant ds" and "i < 26"
  shows "distinct (map pID (chain_at ds key i))"
proof (cases "map_find ds key")
  case None
  then show ?thesis by (simp add: chain_at_def)
next
  case (Some bucket)
  with assms show ?thesis
    using invariant_map_find [of ds key bucket] by (simp add: bucket_ok_def chain_at_def)
qed

lemma find_distinct:
  "distinct (map pID chain) \<Longrightarrow> item \<in> set chain \<Longrightarrow>
   find (\<lambda>x. pID x = pID item) chain = Some item"
  by (induction chain) auto

lemma GetItem_chain_at:
  "tryParseItemIdentifier ident = Some parsed \<Longrightarrow>
   GetItem ds ident
     = find (\<lambda>x. pID x = ident) (chain_at ds (firstWordInitial parsed) (secondWordIndex parsed))"
  by (simp add: GetItem_def chain_at_def GetID_def split: option.splits)

lemma GetItem_stored:
  assumes "invariant ds" and "item \<in> set (stored_items ds)"
  shows "GetItem ds (pID item) = Some item"
proof -
  from assms obtain key i where *: "i < 26" "item \<in> set (chain_at ds key i)"
    by (auto simp: stored_items_mem)
  with assms(1) show ?thesis
    using chain_at_placement [of ds i item key] chain_at_distinct [of ds i key]
    by (simp add: GetItem_chain_at find_distinct)
qed

lemma bucket_ok_mem:
  assumes "bucket_ok entry" and "a \<in> set (concat (snd entry))"
  shows "\<exists>i < 26. tryParseItemIdentifier (pID a)
                    = Some \<lparr> firstWordInitial = fst entry, secondWordIndex = i \<rparr>"
proof -
  from assms(2) obtain chain where "chain \<in> set (snd entry)" "a \<in> set chain"
    by auto
  with assms(1) obtain i where "i < 26" "a \<in> set (snd entry ! i)"
    by (auto simp: bucket_ok_def in_set_conv_nth)
  with assms(1) show ?thesis
    by (auto simp: bucket_ok_def)
qed

lemma stored_items_sorted_wrt:
  assumes inv: "invariant ds"
    and same: "\<And>a b key i.
      tryParseItemIdentifier (pID a) = Some \<lparr> firstWordInitial = key, secondWordIndex = i \<rparr> \<Longrightarrow>
      tryParseItemIdentifier (pID b) = Some \<lparr> firstWordInitial = key, secondWordIndex = i \<rparr> \<Longrightarrow>
      pID a \<noteq> pID b \<Longrightarrow> R a b"
    and chains: "\<And>a b key i j.
      tryParseItemIdentifier (pID a) = Some \<lparr> firstWordInitial = key, secondWordIndex = i \<rparr> \<Longrightarrow>
      tryParseItemIdentifier (pID b) = Some \<lparr> firstWordInitial = key, secondWordIndex = j \<rparr> \<Longrightarrow>
      i < j \<Longrightarrow> R a b"
    and buckets: "\<And>a b key key' i j.
      tryParseItemIdentifier (pID a) = Some \<lparr> firstWordInitial = key, secondWordIndex = i \<rparr> \<Longrightarrow>
      tryParseItemIdentifier (pID b) = Some \<lparr> firstWordInitial = key', secondWordIndex = j \<rparr> \<Longrightarrow>
      key < key' \<Longrightarrow> R a b"
  shows "sorted_wrt R (stored_items ds)"
proof -
  have in_bucket: "sorted_wrt R (concat (snd entry))" if ok: "bucket_ok entry" for entry
  proof (rule sorted_wrt_concat_nth)
    fix chain assume "chain \<in> set (snd entry)"
    with ok obtain i where i: "i < 26" "chain = snd entry ! i"
      by (auto simp: bucket_ok_def in_set_conv_nth)
    with ok have "sorted_wrt (\<lambda>a b. pID a \<noteq> pID b) chain"
      and "\<forall>a \<in> set chain. tryParseItemIdentifier (pID a)
             = Some \<lparr> firstWordInitial = fst entry, secondWordIndex = i \<rparr>"
      by (simp_all add: bucket_ok_def distinct_map_sorted_wrt [symmetric])
    then show "sorted_wrt R chain"
      by (auto intro: same elim!: sorted_wrt_mono_rel [rotated])
  next
    fix i j a b
    assume "i < j" "j < length (snd entry)" "a \<in> set (snd entry ! i)" "b \<in> set (snd entry ! j)"
    with ok show "R a b"
      by (intro chains [of a "fst entry" i b j]) (simp_all add: bucket_ok_def)
  qed
  from inv have keys: "sorted_wrt (<) (map fst ds)" and oks: "\<forall>entry \<in> set ds. bucket_ok entry"
    by (simp_all add: invariant_bucket_ok)
  have "sorted_wrt R (concat (map (\<lambda>bucketEntry. concat (snd bucketEntry)) ds))"
  proof (rule sorted_wrt_concat_nth)
    fix ys assume "ys \<in> set (map (\<lambda>bucketEntry. concat (snd bucketEntry)) ds)"
    with oks show "sorted_wrt R ys"
      by (auto intro: in_bucket)
  next
    fix i j a b
    assume ij: "i < j" "j < length (map (\<lambda>bucketEntry. concat (snd bucketEntry)) ds)"
      and a: "a \<in> set (map (\<lambda>bucketEntry. concat (snd bucketEntry)) ds ! i)"
      and b: "b \<in> set (map (\<lambda>bucketEntry. concat (snd bucketEntry)) ds ! j)"
    from ij have len: "i < length ds" "j < length ds" by simp_all
    with keys ij(1) have "fst (ds ! i) < fst (ds ! j)"
      by (simp add: sorted_wrt_iff_nth_less)
    moreover from a len oks obtain i' where
      "tryParseItemIdentifier (pID a) = Some \<lparr> firstWordInitial = fst (ds ! i), secondWordIndex = i' \<rparr>"
      using bucket_ok_mem [of "ds ! i" a] by auto
    moreover from b len oks obtain j' where
      "tryParseItemIdentifier (pID b) = Some \<lparr> firstWordInitial = fst (ds ! j), secondWordIndex = j' \<rparr>"
      using bucket_ok_mem [of "ds ! j" b] by auto
    ultimately show "R a b"
      by (intro buckets)
  qed
  then show ?thesis
    by (simp add: stored_items_def)
qed

lemma stored_items_distinct_pID:
  assumes "invariant ds"
  shows "distinct (map pID (stored_items ds))"
  unfolding distinct_map_sorted_wrt
  by (rule stored_items_sorted_wrt [OF assms]) auto

lemma stored_items_address_le:
  assumes "invariant ds"
  shows "sorted_wrt (\<lambda>a b. address_le (pID a) (pID b)) (stored_items ds)"
  by (rule stored_items_sorted_wrt [OF assms]) (simp_all add: address_le_def)

section \<open>Uniqueness of identifiers\<close>

text \<open>
  Claim C2. In every container reached from the empty one by inserts and removes, no two
  stored items have the same identifier; and an insert of an item whose identifier is
  that of a stored item throws \<open>Item_already_exists\<close> and leaves the container, hence
  its count, as it was.
\<close>

theorem identifier_uniqueness:
  "distinct (map pID (stored_items (run ops empty_DataStructure)))
   \<and> (\<forall>present \<in> set (stored_items (run ops empty_DataStructure)).
        pID item = pID present \<longrightarrow>
          operator_plus_eq (run ops empty_DataStructure) item
            = (Some Item_already_exists, run ops empty_DataStructure)
          \<and> GetItemsNumber (snd (operator_plus_eq (run ops empty_DataStructure) item))
            = GetItemsNumber (run ops empty_DataStructure))"
proof -
  define ds where "ds = run ops empty_DataStructure"
  have inv: "invariant ds"
    by (simp add: ds_def invariant_run)
  have dup: "operator_plus_eq ds item = (Some Item_already_exists, ds)"
    if present: "present \<in> set (stored_items ds)" and same: "pID item = pID present" for present
  proof -
    from inv present obtain key i where i: "i < 26" "present \<in> set (chain_at ds key i)"
      by (auto simp: stored_items_mem)
    with inv same have parsed: "tryParseItemIdentifier (pID item)
        = Some \<lparr> firstWordInitial = key, secondWordIndex = i \<rparr>"
      by (simp add: chain_at_placement)
    from i same have "pID item \<in> pID ` set (chain_at ds key i)"
      by auto
    with parsed show ?thesis
      by (cases rule: operator_plus_eq_cases [where item = item and ds = ds])
         (auto simp: chain_at_def)
  qed
  from inv have "distinct (map pID (stored_items ds))"
    by (rule stored_items_distinct_pID)
  with dup show ?thesis
    unfolding ds_def by simp
qed

theorem identifier_uniqueness_witness:
  "\<lparr> pID = Some ''Cafe Noir'', Code = 1, pTime = None \<rparr>
     \<in> set (stored_items
          (run [Insert \<lparr> pID = Some ''Cafe Noir'', Code = 1, pTime = None \<rparr>] empty_DataStructure))
   \<and> operator_plus_eq
        (run [Insert \<lparr> pID = Some ''Cafe Noir'', Code = 1, pTime = None \<rparr>] empty_DataStructure)
        \<lparr> pID = Some ''Cafe Noir'', Code = 2, pTime = Some ''noon'' \<rparr>
       = (Some Item_already_exists,
          run [Insert \<lparr> pID = Some ''Cafe Noir'', Code = 1, pTime = None \<rparr>] empty_DataStructure)"
proof -
  have stored: "\<lparr> pID = Some ''Cafe Noir'', Code = 1, pTime = None \<rparr>
     \<in> set (stored_items
          (run [Insert \<lparr> pID = Some ''Cafe Noir'', Code = 1, pTime = None \<rparr>] empty_DataStructure))"
    by code_simp
  with identifier_uniqueness
         [of "[Insert \<lparr> pID = Some ''Cafe Noir'', Code = 1, pTime = None \<rparr>]"
             "\<lparr> pID = Some ''Cafe Noir'', Code = 2, pTime = Some ''noon'' \<rparr>"]
  show ?thesis
    by auto
qed

subsection \<open>The stored items around one chain\<close>

lemma stored_items_map_store_split:
  "map_find ds key = Some bucket \<Longrightarrow>
   \<exists>before after. stored_items ds = before @ concat bucket @ after
      \<and> (\<forall>bucket'. stored_items (map_store key bucket' ds) = before @ concat bucket' @ after)"
proof (induction ds)
  case Nil
  then show ?case by simp
next
  case (Cons entry ds)
  show ?case
  proof (cases "fst entry = key")
    case True
    with Cons.prems have "snd entry = bucket"
      by (cases entry) simp
    with True show ?thesis
      by (intro exI [of _ "[]"] exI [of _ "stored_items ds"])
         (cases entry, simp add: stored_items_def)
  next
    case False
    with Cons.prems have "map_find ds key = Some bucket"
      by (cases entry) simp
    from Cons.IH [OF this] obtain before after where
      "stored_items ds = before @ concat bucket @ after"
      "\<forall>bucket'. stored_items (map_store key bucket' ds) = before @ concat bucket' @ after"
      by blast
    with False show ?thesis
      by (intro exI [of _ "concat (snd entry) @ before"] exI [of _ after])
         (cases entry, simp add: stored_items_def)
  qed
qed

lemma stored_items_chain_split:
  assumes "map_find ds key = Some bucket" and "i < length bucket"
  shows "\<exists>before after. stored_items ds = before @ bucket ! i @ after
      \<and> (\<forall>chain. stored_items (map_store key (bucket[i := chain]) ds) = before @ chain @ after)"
proof -
  from stored_items_map_store_split [OF assms(1)] obtain before after where
    *: "stored_items ds = before @ concat bucket @ after"
       "\<forall>bucket'. stored_items (map_store key bucket' ds) = before @ concat bucket' @ after"
    by blast
  show ?thesis
  proof (intro exI conjI allI)
    show "stored_items ds
            = (before @ concat (take i bucket)) @ bucket ! i @ (concat (drop (Suc i) bucket) @ after)"
      using * assms(2) concat_nth_split [of i bucket] by simp
    show "stored_items (map_store key (bucket[i := chain]) ds)
            = (before @ concat (take i bucket)) @ chain @ (concat (drop (Suc i) bucket) @ after)"
      for chain
      using * assms(2) by (simp add: concat_list_update)
  qed
qed

lemma length_stored_items_map_insert:
  "length (stored_items (map_insert key bucket ds))
     = length (stored_items ds) + length (concat bucket)"
  by (induction ds) (auto simp: stored_items_def)

lemma length_concat_empty_update:
  "i < 26 \<Longrightarrow> length (concat (empty_Bucket[i := chain])) = length chain"
  by (simp add: concat_list_update empty_Bucket_def)

lemma operator_plus_eq_length:
  assumes "invariant ds" and "operator_plus_eq ds item = (None, ds')"
  shows "length (stored_items ds') = Suc (length (stored_items ds))"
proof (cases rule: operator_plus_eq_cases [where item = item and ds = ds])
  case (fresh_bucket parsed)
  with assms(2) tryParse_index [of "pID item" parsed] show ?thesis
    by (auto simp: length_stored_items_map_insert length_concat_empty_update)
next
  case (added parsed bucket)
  with assms(1) have "secondWordIndex parsed < length bucket"
    using invariant_map_find [of ds "firstWordInitial parsed" bucket]
      tryParse_index [of "pID item" parsed]
    by (simp add: bucket_ok_def)
  from stored_items_chain_split [OF added(2) this] added(4) assms(2) show ?thesis
    by auto
qed (use assms in simp_all)

lemma operator_minus_eq_length:
  assumes "invariant ds" and "operator_minus_eq ds ident = (None, ds')"
  shows "Suc (length (stored_items ds')) = length (stored_items ds)"
proof (cases rule: operator_minus_eq_cases [where ident = ident and ds = ds])
  case (removed parsed bucket front x rear)
  with assms(1) have "secondWordIndex parsed < length bucket"
    using invariant_map_find [of ds "firstWordInitial parsed" bucket]
      tryParse_index [of ident parsed]
    by (simp add: bucket_ok_def)
  from stored_items_chain_split [OF removed(2) this] removed(3,6) assms(2) show ?thesis
    by auto
qed (use assms in simp_all)

section \<open>Failing calls and the count\<close>

lemma operator_plus_eq_failure:
  assumes "fst (operator_plus_eq ds item) = Some e"
  shows "(e = Invalid_ID \<or> e = Item_already_exists) \<and> snd (operator_plus_eq ds item) = ds"
  by (cases rule: operator_plus_eq_cases [where item = item and ds = ds])
     (use assms in auto)

lemma operator_minus_eq_failure:
  assumes "fst (operator_minus_eq ds ident) = Some e"
  shows "(e = Invalid_ID \<or> e = Item_not_found) \<and> snd (operator_minus_eq ds ident) = ds"
  by (cases rule: operator_minus_eq_cases [where ident = ident and ds = ds])
     (use assms in auto)

lemma sint_GetItemsNumber_Suc:
  assumes "length (stored_items ds') = Suc (length (stored_items ds))"
    and "length (stored_items ds) + 1 < 2 ^ 31"
  shows "sint (GetItemsNumber ds') = sint (GetItemsNumber ds) + 1"
proof -
  from assms have "length (stored_items ds') < 2 ^ 31" "length (stored_items ds) < 2 ^ 31"
    by simp_all
  then show ?thesis
    using assms(1) by (simp add: sint_GetItemsNumber)
qed

text \<open>
  Claim C3. A call of \<open>operator+=\<close> that throws throws \<open>Invalid_ID\<close> or
  \<open>Item_already_exists\<close>, a call of \<open>operator-=\<close> that throws throws \<open>Invalid_ID\<close> or
  \<open>Item_not_found\<close>, and either leaves the container as it was: the same count, the
  same result of every lookup, the same output. A call of \<open>operator+=\<close> that returns
  leaves one stored item more, and \<open>GetItemsNumber\<close> is larger by one as long as the
  number of items fits the \<open>int\<close>.
\<close>

theorem failing_operations_atomic:
  "(\<forall>e. fst (operator_plus_eq ds item) = Some e \<longrightarrow>
        (e = Invalid_ID \<or> e = Item_already_exists)
        \<and> snd (operator_plus_eq ds item) = ds
        \<and> GetItemsNumber (snd (operator_plus_eq ds item)) = GetItemsNumber ds
        \<and> (\<forall>q. GetItem (snd (operator_plus_eq ds item)) q = GetItem ds q)
        \<and> (\<forall>out. print_DataStructure out (snd (operator_plus_eq ds item))
                    = print_DataStructure out ds))
   \<and> (\<forall>e. fst (operator_minus_eq ds ident) = Some e \<longrightarrow>
        (e = Invalid_ID \<or> e = Item_not_found)
        \<and> snd (operator_minus_eq ds ident) = ds
        \<and> GetItemsNumber (snd (operator_minus_eq ds ident)) = GetItemsNumber ds
        \<and> (\<forall>q. GetItem (snd (operator_minus_eq ds ident)) q = GetItem ds q)
        \<and> (\<forall>out. print_DataStructure out (snd (operator_minus_eq ds ident))
                    = print_DataStructure out ds))
   \<and> (fst (operator_plus_eq (run ops empty_DataStructure) item) = None \<longrightarrow>
        length (stored_items (snd (operator_plus_eq (run ops empty_DataStructure) item)))
          = length (stored_items (run ops empty_DataStructure)) + 1
        \<and> (length (stored_items (run ops empty_DataStructure)) + 1 < 2 ^ 31 \<longrightarrow>
             sint (GetItemsNumber (snd (operator_plus_eq (run ops empty_DataStructure) item)))
               = sint (GetItemsNumber (run ops empty_DataStructure)) + 1))"
proof (intro conjI allI impI)
  fix e assume "fst (operator_plus_eq ds item) = Some e"
  from operator_plus_eq_failure [OF this]
  show "e = Invalid_ID \<or> e = Item_already_exists"
    and same: "snd (operator_plus_eq ds item) = ds"
    by simp_all
  show "GetItemsNumber (snd (operator_plus_eq ds item)) = GetItemsNumber ds"
    and "GetItem (snd (operator_plus_eq ds item)) q = GetItem ds q"
    and "print_DataStructure out (snd (operator_plus_eq ds item)) = print_DataStructure out ds"
    for q out
    by (simp_all only: same)
next
  fix e assume "fst (operator_minus_eq ds ident) = Some e"
  from operator_minus_eq_failure [OF this]
  show "e = Invalid_ID \<or> e = Item_not_found"
    and same: "snd (operator_minus_eq ds ident) = ds"
    by simp_all
  show "GetItemsNumber (snd (operator_minus_eq ds ident)) = GetItemsNumber ds"
    and "GetItem (snd (operator_minus_eq ds ident)) q = GetItem ds q"
    and "print_DataStructure out (snd (operator_minus_eq ds ident)) = print_DataStructure out ds"
    for q out
    by (simp_all only: same)
next
  assume "fst (operator_plus_eq (run ops empty_DataStructure) item) = None"
  then have "operator_plus_eq (run ops empty_DataStructure) item
      = (None, snd (operator_plus_eq (run ops empty_DataStructure) item))"
    by (simp add: prod_eq_iff)
  from operator_plus_eq_length [OF invariant_run this]
  show len: "length (stored_items (snd (operator_plus_eq (run ops empty_DataStructure) item)))
          = length (stored_items (run ops empty_DataStructure)) + 1"
    by simp
  assume "length (stored_items (run ops empty_DataStructure)) + 1 < 2 ^ 31"
  with len show "sint (GetItemsNumber (snd (operator_plus_eq (run ops empty_DataStructure) item)))
               = sint (GetItemsNumber (run ops empty_DataStructure)) + 1"
    by (intro sint_GetItemsNumber_Suc) simp_all
qed

theorem failing_operations_atomic_witness:
  "fst (operator_plus_eq
          (run [Insert \<lparr> pID = Some ''Cafe Noir'', Code = 7, pTime = None \<rparr>] empty_DataStructure)
          \<lparr> pID = Some ''Cafe Noir'', Code = 7, pTime = None \<rparr>) = Some Item_already_exists
   \<and> snd (operator_plus_eq
          (run [Insert \<lparr> pID = Some ''Cafe Noir'', Code = 7, pTime = None \<rparr>] empty_DataStructure)
          \<lparr> pID = Some ''Cafe Noir'', Code = 7, pTime = None \<rparr>)
       = run [Insert \<lparr> pID = Some ''Cafe Noir'', Code = 7, pTime = None \<rparr>] empty_DataStructure
   \<and> fst (operator_minus_eq
          (run [Insert \<lparr> pID = Some ''Cafe Noir'', Code = 7, pTime = None \<rparr>] empty_DataStructure)
          (Some ''Cafe Latte'')) = Some Item_not_found
   \<and> snd (operator_minus_eq
          (run [Insert \<lparr> pID = Some ''Cafe Noir'', Code = 7, pTime = None \<rparr>] empty_DataStructure)
          (Some ''Cafe Latte''))
       = run [Insert \<lparr> pID = Some ''Cafe Noir'', Code = 7, pTime = None \<rparr>] empty_DataStructure
   \<and> fst (operator_plus_eq (run [] empty_DataStructure)
          \<lparr> pID = Some ''Cafe Noir'', Code = 7, pTime = None \<rparr>) = None
   \<and> length (stored_items (run [] empty_DataStructure)) + 1 < 2 ^ 31
   \<and> sint (GetItemsNumber (snd (operator_plus_eq (run [] empty_DataStructure)
          \<lparr> pID = Some ''Cafe Noir'', Code = 7, pTime = None \<rparr>)))
       = sint (GetItemsNumber (run [] empty_DataStructure)) + 1"
proof -
  have duplicate: "fst (operator_plus_eq
          (run [Insert \<lparr> pID = Some ''Cafe Noir'', Code = 7, pTime = None \<rparr>] empty_DataStructure)
          \<lparr> pID = Some ''Cafe Noir'', Code = 7, pTime = None \<rparr>) = Some Item_already_exists"
    by code_simp
  have missing: "fst (operator_minus_eq
          (run [Insert \<lparr> pID = Some ''Cafe Noir'', Code = 7, pTime = None \<rparr>] empty_DataStructure)
          (Some ''Cafe Latte'')) = Some Item_not_found"
    by code_simp
  have inserted: "fst (operator_plus_eq (run [] empty_DataStructure)
          \<lparr> pID = Some ''Cafe Noir'', Code = 7, pTime = None \<rparr>) = None"
    by code_simp
  have small: "length (stored_items (run [] empty_DataStructure)) + 1 < 2 ^ 31"
    by (simp add: stored_items_def empty_DataStructure_def)
  from duplicate missing inserted small
    failing_operations_atomic
      [of "run [Insert \<lparr> pID = Some ''Cafe Noir'', Code = 7, pTime = None \<rparr>] empty_DataStructure"
          "\<lparr> pID = Some ''Cafe Noir'', Code = 7, pTime = None \<rparr>"
          "Some ''Cafe Latte''" "[]"]
  show ?thesis
    by blast
qed

lemma run_count:
  "invariant ds \<Longrightarrow>
   length (stored_items (run ops ds)) + successful_removes ops ds
     = length (stored_items ds) + successful_inserts ops ds"
proof (induction ops arbitrary: ds)
  case Nil
  then show ?case by simp
next
  case (Cons operation ops)
  show ?case
  proof (cases operation)
    case (Insert item)
    from Cons.prems have inv': "invariant (snd (operator_plus_eq ds item))"
      by (rule invariant_operator_plus_eq)
    show ?thesis
    proof (cases "fst (operator_plus_eq ds item)")
      case None
      then have "operator_plus_eq ds item = (None, snd (operator_plus_eq ds item))"
        by (simp add: prod_eq_iff)
      from operator_plus_eq_length [OF Cons.prems this] Cons.IH [OF inv'] None Insert
      show ?thesis by simp
    next
      case (Some e)
      from operator_plus_eq_failure [OF this] Cons.IH [OF inv'] Some Insert
      show ?thesis by simp
    qed
  next
    case (Remove ident)
    from Cons.prems have inv': "invariant (snd (operator_minus_eq ds ident))"
      by (rule invariant_operator_minus_eq)
    show ?thesis
    proof (cases "fst (operator_minus_eq ds ident)")
      case None
      then have "operator_minus_eq ds ident = (None, snd (operator_minus_eq ds ident))"
        by (simp add: prod_eq_iff)
      from operator_minus_eq_length [OF Cons.prems this] Cons.IH [OF inv'] None Remove
      show ?thesis by simp
    next
      case (Some e)
      from operator_minus_eq_failure [OF this] Cons.IH [OF inv'] Some Remove
      show ?thesis by simp
    qed
  qed
qed

lemma length_stored_items_sum:
  "length (stored_items ds) = (\<Sum>bucketEntry\<leftarrow>ds. \<Sum>itemList\<leftarrow>snd bucketEntry. length itemList)"
  by (simp add: stored_items_def length_concat comp_def)

text \<open>
  Claim C4. After any run of inserts and removes on the empty container, of which \<open>n\<close>
  inserts and \<open>m\<close> removes return without an exception, the container stores \<open>n - m\<close>
  items, and \<open>GetItemsNumber\<close> returns \<open>n - m\<close> as long as that fits the \<open>int\<close>. Of every
  container \<open>GetItemsNumber\<close> returns the sum of the lengths of all chains of all
  buckets, cast to \<open>int\<close>.
\<close>

theorem count_consistency:
  "successful_removes ops empty_DataStructure \<le> successful_inserts ops empty_DataStructure
   \<and> (\<Sum>bucketEntry\<leftarrow>run ops empty_DataStructure. \<Sum>itemList\<leftarrow>snd bucketEntry. length itemList)
       = successful_inserts ops empty_DataStructure - successful_removes ops empty_DataStructure
   \<and> GetItemsNumber ds = of_nat (\<Sum>bucketEntry\<leftarrow>ds. \<Sum>itemList\<leftarrow>snd bucketEntry. length itemList)
   \<and> (successful_inserts ops empty_DataStructure - successful_removes ops empty_DataStructure < 2 ^ 31
        \<longrightarrow> sint (GetItemsNumber (run ops empty_DataStructure))
              = int (successful_inserts ops empty_DataStructure)
                - int (successful_removes ops empty_DataStructure))"
proof -
  have "length (stored_items (run ops empty_DataStructure)) + successful_removes ops empty_DataStructure
      = successful_inserts ops empty_DataStructure"
    using run_count [OF invariant_empty, of ops]
    by (simp add: stored_items_def empty_DataStructure_def)
  then have le: "successful_removes ops empty_DataStructure \<le> successful_inserts ops empty_DataStructure"
    and len: "length (stored_items (run ops empty_DataStructure))
      = successful_inserts ops empty_DataStructure - successful_removes ops empty_DataStructure"
    by simp_all
  have count: "GetItemsNumber ds
      = of_nat (\<Sum>bucketEntry\<leftarrow>ds. \<Sum>itemList\<leftarrow>snd bucketEntry. length itemList)"
    by (simp only: GetItemsNumber_stored length_stored_items_sum)
  have sum: "(\<Sum>bucketEntry\<leftarrow>run ops empty_DataStructure. \<Sum>itemList\<leftarrow>snd bucketEntry. length itemList)
       = successful_inserts ops empty_DataStructure - successful_removes ops empty_DataStructure"
    using len by (simp only: length_stored_items_sum)
  have int: "sint (GetItemsNumber (run ops empty_DataStructure))
              = int (successful_inserts ops empty_DataStructure)
                - int (successful_removes ops empty_DataStructure)"
    if "successful_inserts ops empty_DataStructure - successful_removes ops empty_DataStructure < 2 ^ 31"
    using that le len sint_GetItemsNumber [of "run ops empty_DataStructure"]
    by simp
  show ?thesis
    using le sum count int by blast
qed

theorem count_consistency_witness:
  "successful_inserts
      [Insert \<lparr> pID = Some ''Cafe Noir'', Code = 7, pTime = None \<rparr>,
       Insert \<lparr> pID = Some ''Tiffany Blue'', Code = 8, pTime = None \<rparr>,
       Remove (Some ''Cafe Noir''),
       Remove (Some ''Cafe Noir''),
       Insert \<lparr> pID = Some ''Tiffany Blue'', Code = 9, pTime = None \<rparr>]
      empty_DataStructure = 2
   \<and> successful_removes
      [Insert \<lparr> pID = Some ''Cafe Noir'', Code = 7, pTime = None \<rparr>,
       Insert \<lparr> pID = Some ''Tiffany Blue'', Code = 8, pTime = None \<rparr>,
       Remove (Some ''Cafe Noir''),
       Remove (Some ''Cafe Noir''),
       Insert \<lparr> pID = Some ''Tiffany Blue'', Code = 9, pTime = None \<rparr>]
      empty_DataStructure = 1
   \<and> sint (GetItemsNumber (run
      [Insert \<lparr> pID = Some ''Cafe Noir'', Code = 7, pTime = None \<rparr>,
       Insert \<lparr> pID = Some ''Tiffany Blue'', Code = 8, pTime = None \<rparr>,
       Remove (Some ''Cafe Noir''),
       Remove (Some ''Cafe Noir''),
       Insert \<lparr> pID = Some ''Tiffany Blue'', Code = 9, pTime = None \<rparr>]
      empty_DataStructure)) = 1"
proof -
  have n: "successful_inserts
      [Insert \<lparr> pID = Some ''Cafe Noir'', Code = 7, pTime = None \<rparr>,
       Insert \<lparr> pID = Some ''Tiffany Blue'', Code = 8, pTime = None \<rparr>,
       Remove (Some ''Cafe Noir''),
       Remove (Some ''Cafe Noir''),
       Insert \<lparr> pID = Some ''Tiffany Blue'', Code = 9, pTime = None \<rparr>]
      empty_DataStructure = 2"
    by code_simp
  have m: "successful_removes
      [Insert \<lparr> pID = Some ''Cafe Noir'', Code = 7, pTime = None \<rparr>,
       Insert \<lparr> pID = Some ''Tiffany Blue'', Code = 8, pTime = None \<rparr>,
       Remove (Some ''Cafe Noir''),
       Remove (Some ''Cafe Noir''),
       Insert \<lparr> pID = Some ''Tiffany Blue'', Code = 9, pTime = None \<rparr>]
      empty_DataStructure = 1"
    by code_simp
  from n m count_consistency
    [of "[Insert \<lparr> pID = Some ''Cafe Noir'', Code = 7, pTime = None \<rparr>,
       Insert \<lparr> pID = Some ''Tiffany Blue'', Code = 8, pTime = None \<rparr>,
       Remove (Some ''Cafe Noir''),
       Remove (Some ''Cafe Noir''),
       Insert \<lparr> pID = Some ''Tiffany Blue'', Code = 9, pTime = None \<rparr>]"]
  show ?thesis
    by simp
qed

subsection \<open>The chains after a successful call\<close>

lemma chain_at_map_store:
  "map_find ds key = Some bucket \<Longrightarrow>
   chain_at (map_store key bucket' ds) k i = (if k = key then bucket' ! i else chain_at ds k i)"
  by (simp add: chain_at_def map_find_map_store)

lemma chain_at_map_insert:
  "map_find ds key = None \<Longrightarrow>
   chain_at (map_insert key bucket ds) k i = (if k = key then bucket ! i else chain_at ds k i)"
  by (simp add: chain_at_def map_find_map_insert)

lemma operator_plus_eq_chain_at:
  assumes "invariant ds" and "operator_plus_eq ds item = (None, ds')"
  shows "\<exists>parsed. tryParseItemIdentifier (pID item) = Some parsed
      \<and> chain_at ds' (firstWordInitial parsed) (secondWordIndex parsed)
          = item # chain_at ds (firstWordInitial parsed) (secondWordIndex parsed)
      \<and> pID item \<notin> pID ` set (chain_at ds (firstWordInitial parsed) (secondWordIndex parsed))
      \<and> (\<forall>k i. i < 26 \<and> (k \<noteq> firstWordInitial parsed \<or> i \<noteq> secondWordIndex parsed) \<longrightarrow>
            chain_at ds' k i = chain_at ds k i)"
proof (cases rule: operator_plus_eq_cases [where item = item and ds = ds])
  case (fresh_bucket parsed)
  note index = tryParse_index [OF fresh_bucket(1)]
  have absent: "chain_at ds (firstWordInitial parsed) i = []" for i
    using fresh_bucket(2) by (simp add: chain_at_def)
  from fresh_bucket assms(2) have ds': "ds' = map_insert (firstWordInitial parsed)
                  (empty_Bucket[secondWordIndex parsed := [item]]) ds"
    by simp
  show ?thesis
  proof (intro exI [of _ parsed] conjI allI impI)
    show "tryParseItemIdentifier (pID item) = Some parsed" by fact
    show "chain_at ds' (firstWordInitial parsed) (secondWordIndex parsed)
          = item # chain_at ds (firstWordInitial parsed) (secondWordIndex parsed)"
      using index fresh_bucket(2)
      by (simp add: ds' chain_at_map_insert absent empty_Bucket_def)
    show "pID item \<notin> pID ` set (chain_at ds (firstWordInitial parsed) (secondWordIndex parsed))"
      by (simp add: absent)
    show "chain_at ds' k i = chain_at ds k i"
      if "i < 26 \<and> (k \<noteq> firstWordInitial parsed \<or> i \<noteq> secondWordIndex parsed)" for k i
      using that index fresh_bucket(2)
      by (auto simp: ds' chain_at_map_insert absent empty_Bucket_def)
  qed
next
  case (added parsed bucket)
  note index = tryParse_index [OF added(1)]
  from assms(1) added(2) have len: "length bucket = 26"
    using invariant_map_find [of ds "firstWordInitial parsed" bucket] by (simp add: bucket_ok_def)
  have present: "chain_at ds (firstWordInitial parsed) i = bucket ! i" for i
    using added(2) by (simp add: chain_at_def)
  from added assms(2) have ds': "ds' = map_store (firstWordInitial parsed)
                  (bucket[secondWordIndex parsed := item # bucket ! secondWordIndex parsed]) ds"
    by simp
  show ?thesis
  proof (intro exI [of _ parsed] conjI allI impI)
    show "tryParseItemIdentifier (pID item) = Some parsed" by fact
    show "chain_at ds' (firstWordInitial parsed) (secondWordIndex parsed)
          = item # chain_at ds (firstWordInitial parsed) (secondWordIndex parsed)"
      using index len added(2)
      by (simp add: ds' chain_at_map_store present)
    show "pID item \<notin> pID ` set (chain_at ds (firstWordInitial parsed) (secondWordIndex parsed))"
      using added(3) by (simp add: present)
    show "chain_at ds' k i = chain_at ds k i"
      if "i < 26 \<and> (k \<noteq> firstWordInitial parsed \<or> i \<noteq> secondWordIndex parsed)" for k i
      using that index len added(2)
      by (auto simp: ds' chain_at_map_store present)
  qed
qed (use assms in simp_all)

lemma operator_minus_eq_chain_at:
  assumes "invariant ds" and "operator_minus_eq ds ident = (None, ds')"
  shows "\<exists>parsed front x rear. tryParseItemIdentifier ident = Some parsed
      \<and> chain_at ds (firstWordInitial parsed) (secondWordIndex parsed) = front @ x # rear
      \<and> pID x = ident
      \<and> ident \<notin> pID ` set (front @ rear)
      \<and> chain_at ds' (firstWordInitial parsed) (secondWordIndex parsed) = front @ rear
      \<and> (\<forall>k i. k \<noteq> firstWordInitial parsed \<or> i \<noteq> secondWordIndex parsed \<longrightarrow>
            chain_at ds' k i = chain_at ds k i)
      \<and> map fst ds' = map fst ds"
proof (cases rule: operator_minus_eq_cases [where ident = ident and ds = ds])
  case (removed parsed bucket front x rear)
  note index = tryParse_index [OF removed(1)]
  from assms(1) removed(2) have ok: "bucket_ok (firstWordInitial parsed, bucket)"
    by (rule invariant_map_find)
  then have len: "length bucket = 26"
    by (simp add: bucket_ok_def)
  from ok index have "distinct (map pID (bucket ! secondWordIndex parsed))"
    by (simp add: bucket_ok_def)
  with removed(3,4) have fresh: "ident \<notin> pID ` set (front @ rear)"
    by auto
  have present: "chain_at ds (firstWordInitial parsed) i = bucket ! i" for i
    using removed(2) by (simp add: chain_at_def)
  from removed assms(2) have ds': "ds' = map_store (firstWordInitial parsed)
                  (bucket[secondWordIndex parsed := front @ rear]) ds"
    by simp
  show ?thesis
  proof (rule exI [of _ parsed], rule exI [of _ front], rule exI [of _ x], rule exI [of _ rear],
      intro conjI allI impI)
    show "tryParseItemIdentifier ident = Some parsed" by fact
    show "chain_at ds (firstWordInitial parsed) (secondWordIndex parsed) = front @ x # rear"
      using removed(3) by (simp add: present)
    show "pID x = ident" by fact
    show "ident \<notin> pID ` set (front @ rear)" by fact
    show "chain_at ds' (firstWordInitial parsed) (secondWordIndex parsed) = front @ rear"
      using index len removed(2) by (simp add: ds' chain_at_map_store)
    show "chain_at ds' k i = chain_at ds k i"
      if "k \<noteq> firstWordInitial parsed \<or> i \<noteq> secondWordIndex parsed" for k i
      using that removed(2) by (auto simp: ds' chain_at_map_store present)
    show "map fst ds' = map fst ds"
      by (simp add: ds' keys_map_store)
  qed
qed (use assms in simp_all)

section \<open>Round trip\<close>

lemma operator_minus_eq_succeeds:
  assumes "tryParseItemIdentifier ident = Some parsed"
    and "ident \<in> pID ` set (chain_at ds (firstWordInitial parsed) (secondWordIndex parsed))"
  shows "fst (operator_minus_eq ds ident) = None"
  by (cases rule: operator_minus_eq_cases [where ident = ident and ds = ds])
     (use assms in \<open>auto simp: chain_at_def\<close>)

text \<open>
  Claim C5. When \<open>operator+=\<close> returns for an item, on a container reached from the empty
  one, \<open>GetItem\<close> with the item's identifier returns that item; \<open>operator-=\<close> with the
  identifier then returns too, and after it \<open>GetItem\<close> with the identifier returns the
  null pointer.
\<close>

theorem insert_find_remove_round_trip:
  "operator_plus_eq (run ops empty_DataStructure) item = (None, ds1) \<longrightarrow>
     GetItem ds1 (pID item) = Some item
     \<and> fst (operator_minus_eq ds1 (pID item)) = None
     \<and> GetItem (snd (operator_minus_eq ds1 (pID item))) (pID item) = None"
proof
  assume ins: "operator_plus_eq (run ops empty_DataStructure) item = (None, ds1)"
  have inv: "invariant (run ops empty_DataStructure)"
    by (rule invariant_run)
  from invariant_operator_plus_eq [OF inv, of item] ins have inv1: "invariant ds1"
    by simp
  from operator_plus_eq_chain_at [OF inv ins] obtain parsed where
    parsed: "tryParseItemIdentifier (pID item) = Some parsed"
    and chain: "chain_at ds1 (firstWordInitial parsed) (secondWordIndex parsed)
          = item # chain_at (run ops empty_DataStructure) (firstWordInitial parsed) (secondWordIndex parsed)"
    by blast
  from parsed chain have found: "GetItem ds1 (pID item) = Some item"
    by (simp add: GetItem_chain_at)
  from parsed chain have removed: "fst (operator_minus_eq ds1 (pID item)) = None"
    by (intro operator_minus_eq_succeeds [of _ parsed]) simp_all
  then have "operator_minus_eq ds1 (pID item) = (None, snd (operator_minus_eq ds1 (pID item)))"
    by (simp add: prod_eq_iff)
  from operator_minus_eq_chain_at [OF inv1 this] parsed obtain front rear where
    "chain_at (snd (operator_minus_eq ds1 (pID item))) (firstWordInitial parsed) (secondWordIndex parsed)
       = front @ rear"
    "pID item \<notin> pID ` set (front @ rear)"
    by auto
  with parsed have "GetItem (snd (operator_minus_eq ds1 (pID item))) (pID item) = None"
    by (simp add: GetItem_chain_at find_None_pID)
  with found removed show "GetItem ds1 (pID item) = Some item
     \<and> fst (operator_minus_eq ds1 (pID item)) = None
     \<and> GetItem (snd (operator_minus_eq ds1 (pID item))) (pID item) = None"
    by simp
qed

theorem insert_find_remove_round_trip_witness:
  "operator_plus_eq
      (run [Insert \<lparr> pID = Some ''Cafe Latte'', Code = 3, pTime = None \<rparr>] empty_DataStructure)
      \<lparr> pID = Some ''Cafe Lungo'', Code = 4, pTime = Some ''noon'' \<rparr>
     = (None, [(CHR ''C'', (replicate 26 [])
                 [11 := [\<lparr> pID = Some ''Cafe Lungo'', Code = 4, pTime = Some ''noon'' \<rparr>,
                         \<lparr> pID = Some ''Cafe Latte'', Code = 3, pTime = None \<rparr>]])])
   \<and> GetItem [(CHR ''C'', (replicate 26 [])
                 [11 := [\<lparr> pID = Some ''Cafe Lungo'', Code = 4, pTime = Some ''noon'' \<rparr>,
                         \<lparr> pID = Some ''Cafe Latte'', Code = 3, pTime = None \<rparr>]])]
        (Some ''Cafe Lungo'')
       = Some \<lparr> pID = Some ''Cafe Lungo'', Code = 4, pTime = Some ''noon'' \<rparr>
   \<and> GetItem (snd (operator_minus_eq
          [(CHR ''C'', (replicate 26 [])
                 [11 := [\<lparr> pID = Some ''Cafe Lungo'', Code = 4, pTime = Some ''noon'' \<rparr>,
                         \<lparr> pID = Some ''Cafe Latte'', Code = 3, pTime = None \<rparr>]])]
          (Some ''Cafe Lungo''))) (Some ''Cafe Lungo'') = None"
proof -
  have inserted: "operator_plus_eq
      (run [Insert \<lparr> pID = Some ''Cafe Latte'', Code = 3, pTime = None \<rparr>] empty_DataStructure)
      \<lparr> pID = Some ''Cafe Lungo'', Code = 4, pTime = Some ''noon'' \<rparr>
     = (None, [(CHR ''C'', (replicate 26 [])
                 [11 := [\<lparr> pID = Some ''Cafe Lungo'', Code = 4, pTime = Some ''noon'' \<rparr>,
                         \<lparr> pID = Some ''Cafe Latte'', Code = 3, pTime = None \<rparr>]])])"
    by code_simp
  with insert_find_remove_round_trip
    [of "[Insert \<lparr> pID = Some ''Cafe Latte'', Code = 3, pTime = None \<rparr>]"
        "\<lparr> pID = Some ''Cafe Lungo'', Code = 4, pTime = Some ''noon'' \<rparr>"
        "[(CHR ''C'', (replicate 26 [])
                 [11 := [\<lparr> pID = Some ''Cafe Lungo'', Code = 4, pTime = Some ''noon'' \<rparr>,
                         \<lparr> pID = Some ''Cafe Latte'', Code = 3, pTime = None \<rparr>]])]"]
  show ?thesis
    by simp
qed

section \<open>Lookup\<close>

text \<open>
  Claim C7. \<open>GetItem\<close> is a \<open>const\<close> member without a \<open>throw\<close>: its model has no error
  value and returns no container. It returns the null pointer when the identifier does
  not parse, when the map has no bucket for the first-level key, and when no item of
  the addressed chain has the identifier; otherwise it returns the first item of that
  chain with the identifier. So a malformed identifier and an absent item give the same
  result.
\<close>

theorem GetItem_characterisation:
  "(tryParseItemIdentifier ident = None \<longrightarrow> GetItem ds ident = None)
   \<and> (\<forall>parsed. tryParseItemIdentifier ident = Some parsed
         \<and> map_find ds (firstWordInitial parsed) = None \<longrightarrow> GetItem ds ident = None)
   \<and> (\<forall>parsed bucket. tryParseItemIdentifier ident = Some parsed
         \<and> map_find ds (firstWordInitial parsed) = Some bucket \<longrightarrow>
         (ident \<notin> pID ` set (bucket ! secondWordIndex parsed) \<longrightarrow> GetItem ds ident = None)
         \<and> (\<forall>front x rear. bucket ! secondWordIndex parsed = front @ x # rear
               \<and> pID x = ident \<and> ident \<notin> pID ` set front \<longrightarrow> GetItem ds ident = Some x))
   \<and> (\<forall>x. GetItem ds ident = Some x \<longrightarrow>
         pID x = ident
         \<and> (\<exists>parsed bucket. tryParseItemIdentifier ident = Some parsed
               \<and> map_find ds (firstWordInitial parsed) = Some bucket
               \<and> x \<in> set (bucket ! secondWordIndex parsed)))"
proof (intro conjI allI impI)
  assume "tryParseItemIdentifier ident = None"
  then show "GetItem ds ident = None"
    by (simp add: GetItem_def)
next
  fix parsed
  assume "tryParseItemIdentifier ident = Some parsed \<and> map_find ds (firstWordInitial parsed) = None"
  then show "GetItem ds ident = None"
    by (simp add: GetItem_def)
next
  fix parsed bucket
  assume *: "tryParseItemIdentifier ident = Some parsed
         \<and> map_find ds (firstWordInitial parsed) = Some bucket"
  {
    assume "ident \<notin> pID ` set (bucket ! secondWordIndex parsed)"
    with * show "GetItem ds ident = None"
      by (simp add: GetItem_def GetID_def find_None_pID)
  next
    fix front x rear
    assume split: "bucket ! secondWordIndex parsed = front @ x # rear
               \<and> pID x = ident \<and> ident \<notin> pID ` set front"
    then have "\<forall>y \<in> set front. \<not> pID y = ident"
      by (metis imageI)
    with split have "find (\<lambda>y. pID y = ident) (front @ x # rear) = Some x"
      by (intro find_split) simp_all
    with split have "find (\<lambda>y. pID y = ident) (bucket ! secondWordIndex parsed) = Some x"
      by simp
    with * show "GetItem ds ident = Some x"
      by (simp add: GetItem_def GetID_def)
  }
next
  fix x
  assume found: "GetItem ds ident = Some x"
  then obtain parsed bucket where
    *: "tryParseItemIdentifier ident = Some parsed"
       "map_find ds (firstWordInitial parsed) = Some bucket"
       "find (\<lambda>y. pID y = ident) (bucket ! secondWordIndex parsed) = Some x"
    by (auto simp: GetItem_def GetID_def split: option.splits)
  from find_SomeD [OF *(3)] show "pID x = ident"
    by auto
  from find_SomeD [OF *(3)] have "x \<in> set (bucket ! secondWordIndex parsed)"
    by auto
  with *(1,2) show "\<exists>parsed bucket. tryParseItemIdentifier ident = Some parsed
               \<and> map_find ds (firstWordInitial parsed) = Some bucket
               \<and> x \<in> set (bucket ! secondWordIndex parsed)"
    by blast
qed

theorem GetItem_characterisation_witness:
  "tryParseItemIdentifier (Some ''Cafe Latte'')
     = Some \<lparr> firstWordInitial = CHR ''C'', secondWordIndex = 11 \<rparr>
   \<and> GetItem (run [Insert \<lparr> pID = Some ''Cafe Latte'', Code = 3, pTime = None \<rparr>,
             Insert \<lparr> pID = Some ''Cafe Lungo'', Code = 4, pTime = None \<rparr>]
          empty_DataStructure) (Some ''Cafe Latte'')
       = Some \<lparr> pID = Some ''Cafe Latte'', Code = 3, pTime = None \<rparr>
   \<and> tryParseItemIdentifier (Some ''Cafe Mocha'')
     = Some \<lparr> firstWordInitial = CHR ''C'', secondWordIndex = 12 \<rparr>
   \<and> GetItem (run [Insert \<lparr> pID = Some ''Cafe Latte'', Code = 3, pTime = None \<rparr>,
             Insert \<lparr> pID = Some ''Cafe Lungo'', Code = 4, pTime = None \<rparr>]
          empty_DataStructure) (Some ''Cafe Mocha'') = None
   \<and> tryParseItemIdentifier (Some ''cafe latte'') = None
   \<and> GetItem (run [Insert \<lparr> pID = Some ''Cafe Latte'', Code = 3, pTime = None \<rparr>,
             Insert \<lparr> pID = Some ''Cafe Lungo'', Code = 4, pTime = None \<rparr>]
          empty_DataStructure) (Some ''cafe latte'') = None"
proof -
  have parsed: "tryParseItemIdentifier (Some ''Cafe Latte'')
     = Some \<lparr> firstWordInitial = CHR ''C'', secondWordIndex = 11 \<rparr>"
    by code_simp
  have bucket: "map_find (run [Insert \<lparr> pID = Some ''Cafe Latte'', Code = 3, pTime = None \<rparr>,
             Insert \<lparr> pID = Some ''Cafe Lungo'', Code = 4, pTime = None \<rparr>]
          empty_DataStructure)
      (firstWordInitial \<lparr> firstWordInitial = CHR ''C'', secondWordIndex = 11 \<rparr>) = Some ((replicate 26 [])
          [11 := [\<lparr> pID = Some ''Cafe Lungo'', Code = 4, pTime = None \<rparr>,
                  \<lparr> pID = Some ''Cafe Latte'', Code = 3, pTime = None \<rparr>]])"
    by code_simp
  have chain: "((replicate 26 [])
          [11 := [\<lparr> pID = Some ''Cafe Lungo'', Code = 4, pTime = None \<rparr>,
                  \<lparr> pID = Some ''Cafe Latte'', Code = 3, pTime = None \<rparr>]]) ! secondWordIndex \<lparr> firstWordInitial = CHR ''C'', secondWordIndex = 11 \<rparr>
       = [\<lparr> pID = Some ''Cafe Lungo'', Code = 4, pTime = None \<rparr>]
         @ \<lparr> pID = Some ''Cafe Latte'', Code = 3, pTime = None \<rparr> # []"
    by code_simp
  have ident: "pID \<lparr> pID = Some ''Cafe Latte'', Code = 3, pTime = None \<rparr> = Some ''Cafe Latte''"
    by simp
  have first: "Some ''Cafe Latte''
      \<notin> pID ` set [\<lparr> pID = Some ''Cafe Lungo'', Code = 4, pTime = None \<rparr>]"
    by simp
  have other: "tryParseItemIdentifier (Some ''Cafe Mocha'')
     = Some \<lparr> firstWordInitial = CHR ''C'', secondWordIndex = 12 \<rparr>"
    by code_simp
  have bucket': "map_find (run [Insert \<lparr> pID = Some ''Cafe Latte'', Code = 3, pTime = None \<rparr>,
             Insert \<lparr> pID = Some ''Cafe Lungo'', Code = 4, pTime = None \<rparr>]
          empty_DataStructure)
      (firstWordInitial \<lparr> firstWordInitial = CHR ''C'', secondWordIndex = 12 \<rparr>) = Some ((replicate 26 [])
          [11 := [\<lparr> pID = Some ''Cafe Lungo'', Code = 4, pTime = None \<rparr>,
                  \<lparr> pID = Some ''Cafe Latte'', Code = 3, pTime = None \<rparr>]])"
    by code_simp
  have none: "Some ''Cafe Mocha''
      \<notin> pID ` set (((replicate 26 [])
          [11 := [\<lparr> pID = Some ''Cafe Lungo'', Code = 4, pTime = None \<rparr>,
                  \<lparr> pID = Some ''Cafe Latte'', Code = 3, pTime = None \<rparr>]]) ! secondWordIndex \<lparr> firstWordInitial = CHR ''C'', secondWordIndex = 12 \<rparr>)"
    by code_simp
  have malformed: "tryParseItemIdentifier (Some ''cafe latte'') = None"
    by code_simp
  from parsed bucket chain ident first
    GetItem_characterisation [of "Some ''Cafe Latte''" "(run [Insert \<lparr> pID = Some ''Cafe Latte'', Code = 3, pTime = None \<rparr>,
             Insert \<lparr> pID = Some ''Cafe Lungo'', Code = 4, pTime = None \<rparr>]
          empty_DataStructure)"]
  have found: "GetItem (run [Insert \<lparr> pID = Some ''Cafe Latte'', Code = 3, pTime = None \<rparr>,
             Insert \<lparr> pID = Some ''Cafe Lungo'', Code = 4, pTime = None \<rparr>]
          empty_DataStructure) (Some ''Cafe Latte'')
       = Some \<lparr> pID = Some ''Cafe Latte'', Code = 3, pTime = None \<rparr>"
    by blast
  from other bucket' none
    GetItem_characterisation [of "Some ''Cafe Mocha''" "(run [Insert \<lparr> pID = Some ''Cafe Latte'', Code = 3, pTime = None \<rparr>,
             Insert \<lparr> pID = Some ''Cafe Lungo'', Code = 4, pTime = None \<rparr>]
          empty_DataStructure)"]
  have absent: "GetItem (run [Insert \<lparr> pID = Some ''Cafe Latte'', Code = 3, pTime = None \<rparr>,
             Insert \<lparr> pID = Some ''Cafe Lungo'', Code = 4, pTime = None \<rparr>]
          empty_DataStructure) (Some ''Cafe Mocha'') = None"
    by blast
  from malformed
    GetItem_characterisation [of "Some ''cafe latte''" "(run [Insert \<lparr> pID = Some ''Cafe Latte'', Code = 3, pTime = None \<rparr>,
             Insert \<lparr> pID = Some ''Cafe Lungo'', Code = 4, pTime = None \<rparr>]
          empty_DataStructure)"]
  have "GetItem (run [Insert \<lparr> pID = Some ''Cafe Latte'', Code = 3, pTime = None \<rparr>,
             Insert \<lparr> pID = Some ''Cafe Lungo'', Code = 4, pTime = None \<rparr>]
          empty_DataStructure) (Some ''cafe latte'') = None"
    by blast
  with found absent parsed other malformed show ?thesis
    by blast
qed

section \<open>Removal\<close>

lemma operator_minus_eq_effect:
  assumes "invariant ds" and "operator_minus_eq ds ident = (None, ds')"
  shows "\<exists>parsed x front rear before after.
      tryParseItemIdentifier ident = Some parsed \<and> pID x = ident
      \<and> chain_at ds (firstWordInitial parsed) (secondWordIndex parsed) = front @ x # rear
      \<and> chain_at ds' (firstWordInitial parsed) (secondWordIndex parsed) = front @ rear
      \<and> (\<forall>k i. k \<noteq> firstWordInitial parsed \<or> i \<noteq> secondWordIndex parsed \<longrightarrow>
            chain_at ds' k i = chain_at ds k i)
      \<and> map fst ds' = map fst ds
      \<and> stored_items ds = before @ x # after
      \<and> stored_items ds' = before @ after
      \<and> ident \<notin> pID ` set (before @ after)"
proof (cases rule: operator_minus_eq_cases [where ident = ident and ds = ds])
  case (removed parsed bucket front x rear)
  note index = tryParse_index [OF removed(1)]
  from assms(1) removed(2) have "bucket_ok (firstWordInitial parsed, bucket)"
    by (rule invariant_map_find)
  then have len: "length bucket = 26"
    by (simp add: bucket_ok_def)
  have present: "chain_at ds (firstWordInitial parsed) i = bucket ! i" for i
    using removed(2) by (simp add: chain_at_def)
  from removed assms(2) have ds': "ds' = map_store (firstWordInitial parsed)
                  (bucket[secondWordIndex parsed := front @ rear]) ds"
    by simp
  from index len have "secondWordIndex parsed < length bucket"
    by simp
  from stored_items_chain_split [OF removed(2) this] removed(3) obtain before after where
    split: "stored_items ds = (before @ front) @ x # (rear @ after)"
      "stored_items ds' = (before @ front) @ (rear @ after)"
    unfolding ds' by auto
  from stored_items_distinct_pID [OF assms(1)] removed(4)
  have fresh: "ident \<notin> pID ` set ((before @ front) @ (rear @ after))"
    unfolding split(1) by auto
  show ?thesis
  proof (rule exI [of _ parsed], rule exI [of _ x], rule exI [of _ front], rule exI [of _ rear],
      rule exI [of _ "before @ front"], rule exI [of _ "rear @ after"], intro conjI allI impI)
    show "tryParseItemIdentifier ident = Some parsed" by fact
    show "pID x = ident" by fact
    show "chain_at ds (firstWordInitial parsed) (secondWordIndex parsed) = front @ x # rear"
      using removed(3) by (simp add: present)
    show "chain_at ds' (firstWordInitial parsed) (secondWordIndex parsed) = front @ rear"
      using index len removed(2) by (simp add: ds' chain_at_map_store)
    show "chain_at ds' k i = chain_at ds k i"
      if "k \<noteq> firstWordInitial parsed \<or> i \<noteq> secondWordIndex parsed" for k i
      using that removed(2) by (auto simp: ds' chain_at_map_store present)
    show "map fst ds' = map fst ds"
      by (simp add: ds' keys_map_store)
    show "stored_items ds = (before @ front) @ x # rear @ after" by fact
    show "stored_items ds' = (before @ front) @ rear @ after" by fact
    show "ident \<notin> pID ` set ((before @ front) @ rear @ after)" by fact
  qed
qed (use assms in simp_all)

text \<open>
  Claim C8. When \<open>operator-=\<close> returns, on a container reached from the empty one, the
  addressed chain held one item with the identifier and now holds the items before it
  followed by the items after it; every other chain of every bucket is as it was, the
  keys of the map are as they were, and the sequence of all stored items has lost that
  one item and nothing else, no other stored item having the identifier.
\<close>

theorem operator_minus_eq_frame:
  "operator_minus_eq (run ops empty_DataStructure) ident = (None, ds') \<longrightarrow>
     (\<exists>parsed x front rear before after.
        tryParseItemIdentifier ident = Some parsed \<and> pID x = ident
        \<and> chain_at (run ops empty_DataStructure) (firstWordInitial parsed) (secondWordIndex parsed)
            = front @ x # rear
        \<and> chain_at ds' (firstWordInitial parsed) (secondWordIndex parsed) = front @ rear
        \<and> (\<forall>k i. k \<noteq> firstWordInitial parsed \<or> i \<noteq> secondWordIndex parsed \<longrightarrow>
              chain_at ds' k i = chain_at (run ops empty_DataStructure) k i)
        \<and> map fst ds' = map fst (run ops empty_DataStructure)
        \<and> stored_items (run ops empty_DataStructure) = before @ x # after
        \<and> stored_items ds' = before @ after
        \<and> ident \<notin> pID ` set (before @ after))"
  using operator_minus_eq_effect [OF invariant_run, of ops ident ds']
  by (intro impI)

theorem operator_minus_eq_frame_witness:
  "operator_minus_eq
      (run [Insert \<lparr> pID = Some ''Cafe Latte'', Code = 3, pTime = None \<rparr>,
           Insert \<lparr> pID = Some ''Cafe Lungo'', Code = 4, pTime = None \<rparr>,
           Insert \<lparr> pID = Some ''Tiffany Blue'', Code = 5, pTime = None \<rparr>] empty_DataStructure) (Some ''Cafe Latte'')
     = (None,
        [(CHR ''C'', (replicate 26 [])
              [11 := [\<lparr> pID = Some ''Cafe Lungo'', Code = 4, pTime = None \<rparr>]]),
          (CHR ''T'', (replicate 26 [])
              [1 := [\<lparr> pID = Some ''Tiffany Blue'', Code = 5, pTime = None \<rparr>]])])
   \<and> Some ''Cafe Latte''
       \<notin> pID ` set (stored_items
          [(CHR ''C'', (replicate 26 [])
              [11 := [\<lparr> pID = Some ''Cafe Lungo'', Code = 4, pTime = None \<rparr>]]),
          (CHR ''T'', (replicate 26 [])
              [1 := [\<lparr> pID = Some ''Tiffany Blue'', Code = 5, pTime = None \<rparr>]])])
   \<and> map fst
        [(CHR ''C'', (replicate 26 [])
              [11 := [\<lparr> pID = Some ''Cafe Lungo'', Code = 4, pTime = None \<rparr>]]),
          (CHR ''T'', (replicate 26 [])
              [1 := [\<lparr> pID = Some ''Tiffany Blue'', Code = 5, pTime = None \<rparr>]])]
       = map fst (run [Insert \<lparr> pID = Some ''Cafe Latte'', Code = 3, pTime = None \<rparr>,
           Insert \<lparr> pID = Some ''Cafe Lungo'', Code = 4, pTime = None \<rparr>,
           Insert \<lparr> pID = Some ''Tiffany Blue'', Code = 5, pTime = None \<rparr>] empty_DataStructure)"
proof -
  have removed: "operator_minus_eq
      (run [Insert \<lparr> pID = Some ''Cafe Latte'', Code = 3, pTime = None \<rparr>,
           Insert \<lparr> pID = Some ''Cafe Lungo'', Code = 4, pTime = None \<rparr>,
           Insert \<lparr> pID = Some ''Tiffany Blue'', Code = 5, pTime = None \<rparr>] empty_DataStructure) (Some ''Cafe Latte'')
     = (None,
        [(CHR ''C'', (replicate 26 [])
              [11 := [\<lparr> pID = Some ''Cafe Lungo'', Code = 4, pTime = None \<rparr>]]),
          (CHR ''T'', (replicate 26 [])
              [1 := [\<lparr> pID = Some ''Tiffany Blue'', Code = 5, pTime = None \<rparr>]])])"
    by code_simp
  from operator_minus_eq_frame
    [of "[Insert \<lparr> pID = Some ''Cafe Latte'', Code = 3, pTime = None \<rparr>,
           Insert \<lparr> pID = Some ''Cafe Lungo'', Code = 4, pTime = None \<rparr>,
           Insert \<lparr> pID = Some ''Tiffany Blue'', Code = 5, pTime = None \<rparr>]" "Some ''Cafe Latte''"
        "[(CHR ''C'', (replicate 26 [])
              [11 := [\<lparr> pID = Some ''Cafe Lungo'', Code = 4, pTime = None \<rparr>]]),
          (CHR ''T'', (replicate 26 [])
              [1 := [\<lparr> pID = Some ''Tiffany Blue'', Code = 5, pTime = None \<rparr>]])]"]
    removed
  obtain before after where
    "stored_items
        [(CHR ''C'', (replicate 26 [])
              [11 := [\<lparr> pID = Some ''Cafe Lungo'', Code = 4, pTime = None \<rparr>]]),
          (CHR ''T'', (replicate 26 [])
              [1 := [\<lparr> pID = Some ''Tiffany Blue'', Code = 5, pTime = None \<rparr>]])] = before @ after"
    "Some ''Cafe Latte'' \<notin> pID ` set (before @ after)"
    "map fst
        [(CHR ''C'', (replicate 26 [])
              [11 := [\<lparr> pID = Some ''Cafe Lungo'', Code = 4, pTime = None \<rparr>]]),
          (CHR ''T'', (replicate 26 [])
              [1 := [\<lparr> pID = Some ''Tiffany Blue'', Code = 5, pTime = None \<rparr>]])]
       = map fst (run [Insert \<lparr> pID = Some ''Cafe Latte'', Code = 3, pTime = None \<rparr>,
           Insert \<lparr> pID = Some ''Cafe Lungo'', Code = 4, pTime = None \<rparr>,
           Insert \<lparr> pID = Some ''Tiffany Blue'', Code = 5, pTime = None \<rparr>] empty_DataStructure)"
    by blast
  with removed show ?thesis
    by simp
qed

section \<open>Buckets stay\<close>

lemma lengths_map_store:
  "map_find ds key = Some bucket \<Longrightarrow> length bucket' = length bucket \<Longrightarrow>
   map (\<lambda>entry. length (snd entry)) (map_store key bucket' ds)
     = map (\<lambda>entry. length (snd entry)) ds"
  by (induction ds) (auto split: if_splits)

lemma operator_minus_eq_keys:
  "map fst (snd (operator_minus_eq ds ident)) = map fst ds"
  by (cases rule: operator_minus_eq_cases [where ident = ident and ds = ds])
     (simp_all add: keys_map_store)

lemma operator_minus_eq_lengths:
  "map (\<lambda>entry. length (snd entry)) (snd (operator_minus_eq ds ident))
     = map (\<lambda>entry. length (snd entry)) ds"
  by (cases rule: operator_minus_eq_cases [where ident = ident and ds = ds])
     (simp_all add: lengths_map_store)

lemma map_find_keys: "map_find ds key \<noteq> None \<longleftrightarrow> key \<in> set (map fst ds)"
  by (simp add: map_find_None_iff)

lemma operator_plus_eq_keeps_bucket:
  assumes "map_find ds key \<noteq> None"
  shows "map_find (snd (operator_plus_eq ds item)) key \<noteq> None"
  by (cases rule: operator_plus_eq_cases [where item = item and ds = ds])
     (use assms in \<open>simp_all add: map_find_map_insert map_find_map_store\<close>)

lemma apply_operation_keeps_bucket:
  assumes "map_find ds key \<noteq> None"
  shows "map_find (snd (apply_operation operation ds)) key \<noteq> None"
proof (cases operation)
  case (Insert item)
  with assms show ?thesis
    by (simp add: operator_plus_eq_keeps_bucket)
next
  case (Remove ident)
  with assms show ?thesis
    by (simp only: map_find_keys apply_operation.simps operator_minus_eq_keys)
qed

lemma run_keeps_bucket:
  "map_find ds key \<noteq> None \<Longrightarrow> map_find (run ops ds) key \<noteq> None"
proof (induction ops arbitrary: ds)
  case Nil
  then show ?case by simp
next
  case (Cons operation ops)
  from Cons.IH [OF apply_operation_keeps_bucket [OF Cons.prems]] show ?case
    by simp
qed

text \<open>
  Claim C9. \<open>operator-=\<close> leaves the keys of the map and the number of chains of every
  bucket as they are, whether it returns or throws; so a bucket that exists exists
  after every further run of inserts and removes, and in a container reached from the
  empty one every bucket has its 26 chains. Inserting \<open>Cafe Noir\<close> into the empty
  container and removing it leaves the bucket \<open>C\<close> with 26 empty chains.
\<close>

theorem buckets_never_pruned:
  "map fst (snd (operator_minus_eq ds ident)) = map fst ds
   \<and> map (\<lambda>entry. length (snd entry)) (snd (operator_minus_eq ds ident))
       = map (\<lambda>entry. length (snd entry)) ds
   \<and> (map_find ds key \<noteq> None \<longrightarrow> map_find (run ops ds) key \<noteq> None)
   \<and> (\<forall>entry \<in> set (run ops empty_DataStructure). length (snd entry) = 26)
   \<and> run [Insert \<lparr> pID = Some ''Cafe Noir'', Code = code, pTime = time \<rparr>,
           Remove (Some ''Cafe Noir'')] empty_DataStructure
       = [(CHR ''C'', replicate 26 [])]"
proof -
  have "\<forall>entry \<in> set (run ops empty_DataStructure). length (snd entry) = 26"
    using invariant_run [of ops] by (simp add: invariant_def well_formed_def)
  moreover have "run [Insert \<lparr> pID = Some ''Cafe Noir'', Code = code, pTime = time \<rparr>,
           Remove (Some ''Cafe Noir'')] empty_DataStructure
       = [(CHR ''C'', replicate 26 [])]"
    by code_simp
  ultimately show ?thesis
    using operator_minus_eq_keys [of ds ident] operator_minus_eq_lengths [of ds ident]
      run_keeps_bucket [of ds key ops]
    by blast
qed

theorem buckets_never_pruned_witness:
  "map_find (run [Insert \<lparr> pID = Some ''Cafe Noir'', Code = 7, pTime = None \<rparr>] empty_DataStructure) (CHR ''C'') \<noteq> None
   \<and> map_find
        (run [Insert \<lparr> pID = Some ''Tiffany Blue'', Code = 5, pTime = None \<rparr>,
         Remove (Some ''Cafe Noir'')]
           (run [Insert \<lparr> pID = Some ''Cafe Noir'', Code = 7, pTime = None \<rparr>] empty_DataStructure))
        (CHR ''C'') \<noteq> None
   \<and> (CHR ''T'', (replicate 26 [])[1 := [\<lparr> pID = Some ''Tiffany Blue'', Code = 5, pTime = None \<rparr>]])
       \<in> set (run [Insert \<lparr> pID = Some ''Tiffany Blue'', Code = 5, pTime = None \<rparr>,
         Remove (Some ''Cafe Noir'')] empty_DataStructure)
   \<and> length (snd (CHR ''T'', (replicate 26 [])[1 := [\<lparr> pID = Some ''Tiffany Blue'', Code = 5, pTime = None \<rparr>]])) = 26"
proof -
  have populated: "map_find (run [Insert \<lparr> pID = Some ''Cafe Noir'', Code = 7, pTime = None \<rparr>] empty_DataStructure) (CHR ''C'') \<noteq> None"
    by code_simp
  have entry: "(CHR ''T'', (replicate 26 [])[1 := [\<lparr> pID = Some ''Tiffany Blue'', Code = 5, pTime = None \<rparr>]])
       \<in> set (run [Insert \<lparr> pID = Some ''Tiffany Blue'', Code = 5, pTime = None \<rparr>,
         Remove (Some ''Cafe Noir'')] empty_DataStructure)"
    by code_simp
  from populated entry
    buckets_never_pruned
      [of "(run [Insert \<lparr> pID = Some ''Cafe Noir'', Code = 7, pTime = None \<rparr>] empty_DataStructure)" "Some ''Cafe Noir''" "CHR ''C''"
          "[Insert \<lparr> pID = Some ''Tiffany Blue'', Code = 5, pTime = None \<rparr>,
         Remove (Some ''Cafe Noir'')]"]
  show ?thesis
    by blast
qed

section \<open>Placement\<close>

text \<open>
  Claim C10. In every container reached from the empty one by inserts and removes,
  every item of the chain \<open>i\<close> of the bucket of key \<open>k\<close> has an identifier that parses
  to the address \<open>(k, i)\<close>. So the identifier of a stored item is neither null nor empty,
  the item lies in the chain at the address of its identifier, and \<open>GetItem\<close> and
  \<open>operator-=\<close>, which search that chain only, find it.
\<close>

theorem placement_invariant:
  "placement (run ops empty_DataStructure)
   \<and> (\<forall>key i. i < 26 \<longrightarrow>
        (\<forall>item \<in> set (chain_at (run ops empty_DataStructure) key i).
           tryParseItemIdentifier (pID item)
             = Some \<lparr> firstWordInitial = key, secondWordIndex = i \<rparr>))
   \<and> (\<forall>item \<in> set (stored_items (run ops empty_DataStructure)).
        pID item \<noteq> None \<and> pID item \<noteq> Some []
        \<and> (\<exists>parsed. tryParseItemIdentifier (pID item) = Some parsed
              \<and> item \<in> set (chain_at (run ops empty_DataStructure)
                                (firstWordInitial parsed) (secondWordIndex parsed)))
        \<and> GetItem (run ops empty_DataStructure) (pID item) = Some item
        \<and> fst (operator_minus_eq (run ops empty_DataStructure) (pID item)) = None)"
proof -
  define ds where "ds = run ops empty_DataStructure"
  have inv: "invariant ds"
    by (simp add: ds_def invariant_run)
  then have placed: "placement ds"
    by (simp add: invariant_def)
  have chains: "tryParseItemIdentifier (pID item)
             = Some \<lparr> firstWordInitial = key, secondWordIndex = i \<rparr>"
    if "i < 26" "item \<in> set (chain_at ds key i)" for key i item
    using inv that by (rule chain_at_placement)
  have stored: "pID item \<noteq> None \<and> pID item \<noteq> Some []
        \<and> (\<exists>parsed. tryParseItemIdentifier (pID item) = Some parsed
              \<and> item \<in> set (chain_at ds (firstWordInitial parsed) (secondWordIndex parsed)))
        \<and> GetItem ds (pID item) = Some item
        \<and> fst (operator_minus_eq ds (pID item)) = None"
    if item: "item \<in> set (stored_items ds)" for item
  proof -
    from inv item obtain key i where i: "i < 26" "item \<in> set (chain_at ds key i)"
      by (auto simp: stored_items_mem)
    then have parsed: "tryParseItemIdentifier (pID item)
             = Some \<lparr> firstWordInitial = key, secondWordIndex = i \<rparr>"
      by (rule chains)
    then have "pID item \<noteq> None" "pID item \<noteq> Some []"
      by (auto simp: tryParseItemIdentifier_def split: option.splits list.splits)
    moreover from parsed i(2) have "\<exists>parsed. tryParseItemIdentifier (pID item) = Some parsed
              \<and> item \<in> set (chain_at ds (firstWordInitial parsed) (secondWordIndex parsed))"
      by simp
    moreover from inv item have "GetItem ds (pID item) = Some item"
      by (rule GetItem_stored)
    moreover from parsed i(2) have "fst (operator_minus_eq ds (pID item)) = None"
      by (intro operator_minus_eq_succeeds
           [of _ "\<lparr> firstWordInitial = key, secondWordIndex = i \<rparr>"]) simp_all
    ultimately show ?thesis
      by blast
  qed
  from placed chains stored show ?thesis
    unfolding ds_def by blast
qed

theorem placement_invariant_witness:
  "(11::nat) < 26
   \<and> \<lparr> pID = Some ''Cafe Latte'', Code = 3, pTime = None \<rparr>
       \<in> set (chain_at
            (run [Insert \<lparr> pID = Some ''Cafe Latte'', Code = 3, pTime = None \<rparr>,
                  Insert \<lparr> pID = Some ''Cafe Lungo'', Code = 4, pTime = None \<rparr>,
                  Remove (Some ''Cafe Lungo'')] empty_DataStructure)
            (CHR ''C'') 11)
   \<and> \<lparr> pID = Some ''Cafe Latte'', Code = 3, pTime = None \<rparr>
       \<in> set (stored_items
            (run [Insert \<lparr> pID = Some ''Cafe Latte'', Code = 3, pTime = None \<rparr>,
                  Insert \<lparr> pID = Some ''Cafe Lungo'', Code = 4, pTime = None \<rparr>,
                  Remove (Some ''Cafe Lungo'')] empty_DataStructure))
   \<and> tryParseItemIdentifier (pID \<lparr> pID = Some ''Cafe Latte'', Code = 3, pTime = None \<rparr>)
       = Some \<lparr> firstWordInitial = CHR ''C'', secondWordIndex = 11 \<rparr>
   \<and> GetItem
        (run [Insert \<lparr> pID = Some ''Cafe Latte'', Code = 3, pTime = None \<rparr>,
              Insert \<lparr> pID = Some ''Cafe Lungo'', Code = 4, pTime = None \<rparr>,
              Remove (Some ''Cafe Lungo'')] empty_DataStructure)
        (pID \<lparr> pID = Some ''Cafe Latte'', Code = 3, pTime = None \<rparr>)
       = Some \<lparr> pID = Some ''Cafe Latte'', Code = 3, pTime = None \<rparr>"
proof -
  have index: "(11::nat) < 26"
    by simp
  have chain: "\<lparr> pID = Some ''Cafe Latte'', Code = 3, pTime = None \<rparr>
       \<in> set (chain_at
            (run [Insert \<lparr> pID = Some ''Cafe Latte'', Code = 3, pTime = None \<rparr>,
                  Insert \<lparr> pID = Some ''Cafe Lungo'', Code = 4, pTime = None \<rparr>,
                  Remove (Some ''Cafe Lungo'')] empty_DataStructure)
            (CHR ''C'') 11)"
    by code_simp
  have stored: "\<lparr> pID = Some ''Cafe Latte'', Code = 3, pTime = None \<rparr>
       \<in> set (stored_items
            (run [Insert \<lparr> pID = Some ''Cafe Latte'', Code = 3, pTime = None \<rparr>,
                  Insert \<lparr> pID = Some ''Cafe Lungo'', Code = 4, pTime = None \<rparr>,
                  Remove (Some ''Cafe Lungo'')] empty_DataStructure))"
    by code_simp
  from index chain stored
    placement_invariant
      [of "[Insert \<lparr> pID = Some ''Cafe Latte'', Code = 3, pTime = None \<rparr>,
            Insert \<lparr> pID = Some ''Cafe Lungo'', Code = 4, pTime = None \<rparr>,
            Remove (Some ''Cafe Lungo'')]"]
  show ?thesis
    by blast
qed

section \<open>Enumeration\<close>

lemma stored_items_chains:
  assumes "invariant ds"
  shows "stored_items ds
    = concat (map (\<lambda>key. concat (map (chain_at ds key) [0..<26])) (map fst ds))"
proof -
  have "concat (snd entry) = concat (map (chain_at ds (fst entry)) [0..<26])"
    if entry: "entry \<in> set ds" for entry
  proof -
    from assms entry have "map_find ds (fst entry) = Some (snd entry)"
      by (intro map_find_sorted) (simp_all add: invariant_bucket_ok)
    then have "map (chain_at ds (fst entry)) [0..<26] = map ((!) (snd entry)) [0..<26]"
      by (simp add: chain_at_def)
    also from assms entry have "\<dots> = map ((!) (snd entry)) [0..<length (snd entry)]"
      by (simp add: invariant_bucket_ok bucket_ok_def)
    also have "\<dots> = snd entry"
      by (rule map_nth)
    finally show ?thesis
      by simp
  qed
  then have "map (\<lambda>bucketEntry. concat (snd bucketEntry)) ds
      = map (\<lambda>entry. concat (map (chain_at ds (fst entry)) [0..<26])) ds"
    by (intro map_cong [OF refl])
  then show ?thesis
    unfolding stored_items_def by (simp only: map_map comp_def)
qed

lemma GetItem_SomeD:
  assumes "invariant ds" and "GetItem ds ident = Some x"
  shows "x \<in> set (stored_items ds)"
proof -
  from assms(2) obtain parsed where parsed: "tryParseItemIdentifier ident = Some parsed"
    by (cases "tryParseItemIdentifier ident") (simp_all add: GetItem_def)
  with assms(2) have "find (\<lambda>y. pID y = ident)
      (chain_at ds (firstWordInitial parsed) (secondWordIndex parsed)) = Some x"
    by (simp add: GetItem_chain_at)
  from find_SomeD [OF this]
  have "x \<in> set (chain_at ds (firstWordInitial parsed) (secondWordIndex parsed))"
    by auto
  with assms(1) tryParse_index [OF parsed] show ?thesis
    by (auto simp: stored_items_mem)
qed

lemma print_Item_stored:
  assumes "invariant ds"
  shows "map Some (map print_Item (stored_items ds)) = map pID (stored_items ds)"
proof -
  have "Some (print_Item item) = pID item" if "item \<in> set (stored_items ds)" for item
  proof -
    from assms that obtain key i where "i < 26" "item \<in> set (chain_at ds key i)"
      by (auto simp: stored_items_mem)
    with assms have "tryParseItemIdentifier (pID item)
        = Some \<lparr> firstWordInitial = key, secondWordIndex = i \<rparr>"
      by (rule chain_at_placement)
    then show ?thesis
      by (cases "pID item") (simp_all add: print_Item_def tryParseItemIdentifier_def)
  qed
  then show ?thesis
    by simp
qed

text \<open>
  Claim C6. \<open>operator<<\<close> appends one line for each stored item, in the order of
  \<open>stored_items\<close>. For a container reached from the empty one the lines are the
  identifiers of the stored items, each once, and the stored items are those that
  \<open>GetItem\<close> finds. The keys of the map ascend strictly, and the sequence is, key after
  key, the chains 0 to 25 of the key's bucket from front to back; so the lines ascend
  by first-level key and then by second-level key. A returning \<open>operator+=\<close> puts the
  item at the front of its chain, so a chain runs from the latest insert to the earliest.
  The two examples of the specification print as stated.
\<close>

theorem enumeration_order:
  "print_DataStructure out ds = out @ map print_Item (stored_items ds)
   \<and> map Some (print_DataStructure [] (run ops empty_DataStructure))
       = map pID (stored_items (run ops empty_DataStructure))
   \<and> distinct (print_DataStructure [] (run ops empty_DataStructure))
   \<and> (\<forall>x. x \<in> set (stored_items (run ops empty_DataStructure))
          \<longleftrightarrow> GetItem (run ops empty_DataStructure) (pID x) = Some x)
   \<and> sorted_wrt (<) (map fst (run ops empty_DataStructure))
   \<and> stored_items (run ops empty_DataStructure)
       = concat (map (\<lambda>key. concat (map (chain_at (run ops empty_DataStructure) key) [0..<26]))
                     (map fst (run ops empty_DataStructure)))
   \<and> sorted_wrt (\<lambda>a b. address_le (Some a) (Some b))
         (print_DataStructure [] (run ops empty_DataStructure))
   \<and> (operator_plus_eq (run ops empty_DataStructure) item = (None, ds') \<longrightarrow>
        (\<exists>parsed. tryParseItemIdentifier (pID item) = Some parsed
           \<and> chain_at ds' (firstWordInitial parsed) (secondWordIndex parsed)
               = item # chain_at (run ops empty_DataStructure)
                          (firstWordInitial parsed) (secondWordIndex parsed)))
   \<and> print_DataStructure []
        (run [Insert \<lparr> pID = Some ''Beta Zed'', Code = code, pTime = time \<rparr>,
              Insert \<lparr> pID = Some ''Alpha Young'', Code = code, pTime = time \<rparr>,
              Insert \<lparr> pID = Some ''Alpha Apple'', Code = code, pTime = time \<rparr>]
           empty_DataStructure)
       = [''Alpha Apple'', ''Alpha Young'', ''Beta Zed'']
   \<and> print_DataStructure []
        (run [Insert \<lparr> pID = Some ''Alpha Young'', Code = code, pTime = time \<rparr>,
              Insert \<lparr> pID = Some ''Alpha Yellow'', Code = code, pTime = time \<rparr>]
           empty_DataStructure)
       = [''Alpha Yellow'', ''Alpha Young'']"
proof -
  define rs where "rs = run ops empty_DataStructure"
  have inv: "invariant rs"
    by (simp add: rs_def invariant_run)
  have printed: "print_DataStructure out ds = out @ map print_Item (stored_items ds)"
    by (rule print_DataStructure_stored)
  have lines: "map Some (print_DataStructure [] rs) = map pID (stored_items rs)"
    using print_Item_stored [OF inv] by (simp add: print_DataStructure_stored)
  have "distinct (map Some (print_DataStructure [] rs))"
    unfolding lines using inv by (rule stored_items_distinct_pID)
  then have once: "distinct (print_DataStructure [] rs)"
    by (simp add: distinct_map)
  have all: "x \<in> set (stored_items rs) \<longleftrightarrow> GetItem rs (pID x) = Some x" for x
    using inv by (auto intro: GetItem_stored GetItem_SomeD)
  from inv have keys: "sorted_wrt (<) (map fst rs)"
    by (simp add: invariant_def well_formed_def)
  from inv have chains: "stored_items rs
       = concat (map (\<lambda>key. concat (map (chain_at rs key) [0..<26])) (map fst rs))"
    by (rule stored_items_chains)
  from stored_items_address_le [OF inv]
  have "sorted_wrt address_le (map pID (stored_items rs))"
    by (simp add: sorted_wrt_map)
  then have "sorted_wrt address_le (map Some (print_DataStructure [] rs))"
    by (simp only: lines)
  then have ascending: "sorted_wrt (\<lambda>a b. address_le (Some a) (Some b)) (print_DataStructure [] rs)"
    by (simp add: sorted_wrt_map)
  have front: "\<exists>parsed. tryParseItemIdentifier (pID item) = Some parsed
           \<and> chain_at ds' (firstWordInitial parsed) (secondWordIndex parsed)
               = item # chain_at rs (firstWordInitial parsed) (secondWordIndex parsed)"
    if "operator_plus_eq rs item = (None, ds')"
    using operator_plus_eq_chain_at [OF inv that] by blast
  have example: "print_DataStructure []
        (run [Insert \<lparr> pID = Some ''Beta Zed'', Code = code, pTime = time \<rparr>,
              Insert \<lparr> pID = Some ''Alpha Young'', Code = code, pTime = time \<rparr>,
              Insert \<lparr> pID = Some ''Alpha Apple'', Code = code, pTime = time \<rparr>]
           empty_DataStructure)
       = [''Alpha Apple'', ''Alpha Young'', ''Beta Zed'']"
    by code_simp
  have same_chain: "print_DataStructure []
        (run [Insert \<lparr> pID = Some ''Alpha Young'', Code = code, pTime = time \<rparr>,
              Insert \<lparr> pID = Some ''Alpha Yellow'', Code = code, pTime = time \<rparr>]
           empty_DataStructure)
       = [''Alpha Yellow'', ''Alpha Young'']"
    by code_simp
  from printed lines once all keys chains ascending front example same_chain show ?thesis
    unfolding rs_def by blast
qed

theorem enumeration_order_witness:
  "operator_plus_eq
      (run [Insert \<lparr> pID = Some ''Alpha Young'', Code = 1, pTime = None \<rparr>] empty_DataStructure)
      \<lparr> pID = Some ''Alpha Yellow'', Code = 2, pTime = None \<rparr>
     = (None,
        [(CHR ''A'', (replicate 26 [])
            [24 := [\<lparr> pID = Some ''Alpha Yellow'', Code = 2, pTime = None \<rparr>,
                    \<lparr> pID = Some ''Alpha Young'', Code = 1, pTime = None \<rparr>]])])
   \<and> chain_at
        [(CHR ''A'', (replicate 26 [])
            [24 := [\<lparr> pID = Some ''Alpha Yellow'', Code = 2, pTime = None \<rparr>,
                    \<lparr> pID = Some ''Alpha Young'', Code = 1, pTime = None \<rparr>]])]
        (CHR ''A'') 24
       = \<lparr> pID = Some ''Alpha Yellow'', Code = 2, pTime = None \<rparr>
         # chain_at (run [Insert \<lparr> pID = Some ''Alpha Young'', Code = 1, pTime = None \<rparr>] empty_DataStructure)
             (CHR ''A'') 24
   \<and> \<lparr> pID = Some ''Alpha Yellow'', Code = 2, pTime = None \<rparr>
       \<in> set (stored_items (run ([Insert \<lparr> pID = Some ''Alpha Young'', Code = 1, pTime = None \<rparr>]
                                 @ [Insert \<lparr> pID = Some ''Alpha Yellow'', Code = 2, pTime = None \<rparr>])
                               empty_DataStructure))
   \<and> GetItem (run ([Insert \<lparr> pID = Some ''Alpha Young'', Code = 1, pTime = None \<rparr>]
                   @ [Insert \<lparr> pID = Some ''Alpha Yellow'', Code = 2, pTime = None \<rparr>])
                 empty_DataStructure)
         (pID \<lparr> pID = Some ''Alpha Yellow'', Code = 2, pTime = None \<rparr>)
       = Some \<lparr> pID = Some ''Alpha Yellow'', Code = 2, pTime = None \<rparr>"
proof -
  have inserted: "operator_plus_eq
      (run [Insert \<lparr> pID = Some ''Alpha Young'', Code = 1, pTime = None \<rparr>] empty_DataStructure)
      \<lparr> pID = Some ''Alpha Yellow'', Code = 2, pTime = None \<rparr>
     = (None,
        [(CHR ''A'', (replicate 26 [])
            [24 := [\<lparr> pID = Some ''Alpha Yellow'', Code = 2, pTime = None \<rparr>,
                    \<lparr> pID = Some ''Alpha Young'', Code = 1, pTime = None \<rparr>]])])"
    by code_simp
  have parsed: "tryParseItemIdentifier (pID \<lparr> pID = Some ''Alpha Yellow'', Code = 2, pTime = None \<rparr>)
      = Some \<lparr> firstWordInitial = CHR ''A'', secondWordIndex = 24 \<rparr>"
    by code_simp
  from inserted
    enumeration_order
      [where ops = "[Insert \<lparr> pID = Some ''Alpha Young'', Code = 1, pTime = None \<rparr>]"
         and item = "\<lparr> pID = Some ''Alpha Yellow'', Code = 2, pTime = None \<rparr>"
         and ds' = "[(CHR ''A'', (replicate 26 [])
            [24 := [\<lparr> pID = Some ''Alpha Yellow'', Code = 2, pTime = None \<rparr>,
                    \<lparr> pID = Some ''Alpha Young'', Code = 1, pTime = None \<rparr>]])]"]
  obtain p where "tryParseItemIdentifier (pID \<lparr> pID = Some ''Alpha Yellow'', Code = 2, pTime = None \<rparr>) = Some p"
    "chain_at
        [(CHR ''A'', (replicate 26 [])
            [24 := [\<lparr> pID = Some ''Alpha Yellow'', Code = 2, pTime = None \<rparr>,
                    \<lparr> pID = Some ''Alpha Young'', Code = 1, pTime = None \<rparr>]])]
        (firstWordInitial p) (secondWordIndex p)
       = \<lparr> pID = Some ''Alpha Yellow'', Code = 2, pTime = None \<rparr>
         # chain_at (run [Insert \<lparr> pID = Some ''Alpha Young'', Code = 1, pTime = None \<rparr>] empty_DataStructure)
             (firstWordInitial p) (secondWordIndex p)"
    by blast
  with parsed have front: "chain_at
        [(CHR ''A'', (replicate 26 [])
            [24 := [\<lparr> pID = Some ''Alpha Yellow'', Code = 2, pTime = None \<rparr>,
                    \<lparr> pID = Some ''Alpha Young'', Code = 1, pTime = None \<rparr>]])]
        (CHR ''A'') 24
       = \<lparr> pID = Some ''Alpha Yellow'', Code = 2, pTime = None \<rparr>
         # chain_at (run [Insert \<lparr> pID = Some ''Alpha Young'', Code = 1, pTime = None \<rparr>] empty_DataStructure)
             (CHR ''A'') 24"
    by auto
  have stored: "\<lparr> pID = Some ''Alpha Yellow'', Code = 2, pTime = None \<rparr>
       \<in> set (stored_items (run ([Insert \<lparr> pID = Some ''Alpha Young'', Code = 1, pTime = None \<rparr>]
                                 @ [Insert \<lparr> pID = Some ''Alpha Yellow'', Code = 2, pTime = None \<rparr>])
                               empty_DataStructure))"
    by code_simp
  with enumeration_order
      [where ops = "[Insert \<lparr> pID = Some ''Alpha Young'', Code = 1, pTime = None \<rparr>]
                    @ [Insert \<lparr> pID = Some ''Alpha Yellow'', Code = 2, pTime = None \<rparr>]"]
  have "GetItem (run ([Insert \<lparr> pID = Some ''Alpha Young'', Code = 1, pTime = None \<rparr>]
                   @ [Insert \<lparr> pID = Some ''Alpha Yellow'', Code = 2, pTime = None \<rparr>])
                 empty_DataStructure)
         (pID \<lparr> pID = Some ''Alpha Yellow'', Code = 2, pTime = None \<rparr>)
       = Some \<lparr> pID = Some ''Alpha Yellow'', Code = 2, pTime = None \<rparr>"
    by blast
  with inserted front stored show ?thesis
    by blast
qed

end
